theory Spec2Isabelle
  imports Main "HOL-Library.Word" "HOL-Library.Signed_Division"
begin

unbundle bit_operations_syntax

section \<open>Bytes, errors and Go slices\<close>

text \<open>
  The package \<^verbatim>\<open>opusreader\<close> (files \<^verbatim>\<open>oggreader.go\<close> and \<^verbatim>\<open>opusreader.go\<close>) is
  embedded function by function. A Go \<^verbatim>\<open>byte\<close> is an \<open>8 word\<close>; Go's \<^verbatim>\<open>int\<close> is
  modelled by \<open>int\<close> where it can be negative and by \<open>nat\<close> for lengths, counts and
  indices, which the code never makes negative, with the wrap-around written out where
  a value can leave the range of the machine integer: in the accumulated duration.

  Every error value the package can return is a constructor of \<open>error\<close>; a run-time
  panic (index or slice bounds out of range) is the constructor \<open>Panic\<close>.
  The message \<^verbatim>\<open>ogg: error reading header\<close> cannot occur: \<^verbatim>\<open>binary.Read\<close> is given
  exactly the 27 bytes that the header struct needs.
\<close>

type_synonym byte = "8 word"

datatype error =
    EOF
  | ErrUnexpectedEOF
  | MissingCapturePattern
  | UnsupportedVersion
  | InvalidTOC
  | InvalidIDPrefix
  | ChannelsCount
  | ChannelMapping
  | InvalidTagsPrefix
  | EOS
  | Panic

text \<open>
  Go's \<^verbatim>\<open>int\<close> has 32 or 64 bits, depending on the build, and its arithmetic wraps
  around. \<open>w\<close> is that number of bits and \<open>int_wrap w\<close> the value that a result has in
  \<open>w\<close> bits, two's complement. It is applied on line 239 of \<^verbatim>\<open>opusreader.go\<close>, where
  the product with 1000000 and the running sum can leave the range. The other \<^verbatim>\<open>int\<close>
  values stay within 32 bits on every run from a new reader: a size within a page is at
  most \<open>255 * 255\<close>, a packet has at most \<open>63 * 2880\<close> samples, and the skip counter lies
  between 0 and the 16-bit pre-skip. The byte counter of the Ogg reader is an \<^verbatim>\<open>int64\<close>
  that the code only writes.
\<close>

definition int_wrap :: "nat \<Rightarrow> int \<Rightarrow> int" where
  "int_wrap w x = (x + 2 ^ (w - 1)) mod 2 ^ w - 2 ^ (w - 1)"

text \<open>
  A Go slice is a window on a backing array: indexing \<^verbatim>\<open>s[i]\<close> is checked against the
  length, but a slice expression \<^verbatim>\<open>s[lo:hi]\<close> is checked against the capacity and can
  reach bytes of the backing array that lie behind the slice. A packet handed out by the
  Ogg layer is such a window on the page body, so the bytes behind it are the rest of
  that body. The record keeps both parts: \<open>bytes\<close> are the elements of the slice and
  \<open>spare\<close> the elements of the backing array between its length and its capacity.

  \<^verbatim>\<open>append\<close> writes in place when the capacity suffices and otherwise moves to a fresh,
  zeroed array whose capacity the run-time system chooses; that choice is the parameter
  \<open>g\<close> (old capacity and needed length to number of spare elements). No slice that
  \<^verbatim>\<open>append\<close> writes through is shared with another live slice, so values suffice.
\<close>

record slice =
  bytes :: "byte list"
  spare :: "byte list"

definition len :: "slice \<Rightarrow> nat" where
  "len s = length (bytes s)"

definition cap :: "slice \<Rightarrow> nat" where
  "cap s = length (bytes s) + length (spare s)"

definition backing :: "slice \<Rightarrow> byte list" where
  "backing s = bytes s @ spare s"

definition nil_slice :: slice where
  "nil_slice = \<lparr>bytes = [], spare = []\<rparr>"

definition make_slice :: "byte list \<Rightarrow> slice" where
  "make_slice bs = \<lparr>bytes = bs, spare = []\<rparr>"

definition index :: "'a list \<Rightarrow> nat \<Rightarrow> error + 'a" where
  "index xs i = (if i < length xs then Inr (xs ! i) else Inl Panic)"

definition reslice :: "slice \<Rightarrow> nat \<Rightarrow> nat \<Rightarrow> error + slice" where
  "reslice s lo hi =
     (if lo \<le> hi \<and> hi \<le> cap s
      then Inr \<lparr>bytes = take (hi - lo) (drop lo (bytes s @ spare s)),
               spare = drop hi (bytes s @ spare s)\<rparr>
      else Inl Panic)"

definition append_slice :: "(nat \<Rightarrow> nat \<Rightarrow> nat) \<Rightarrow> slice \<Rightarrow> slice \<Rightarrow> slice" where
  "append_slice g s t =
     (if len s + len t \<le> cap s
      then \<lparr>bytes = bytes s @ bytes t, spare = drop (len t) (spare s)\<rparr>
      else \<lparr>bytes = bytes s @ bytes t, spare = replicate (g (cap s) (len s + len t)) 0\<rparr>)"

text \<open>
  The byte source is the list of bytes still to be read. \<^verbatim>\<open>io.ReadFull\<close> with an empty
  buffer returns at once without reading; otherwise it fails with \<^verbatim>\<open>io.EOF\<close> when no
  byte is left and with \<^verbatim>\<open>io.ErrUnexpectedEOF\<close> when fewer than \<open>n\<close> are, and the
  source is then exhausted.
\<close>

definition ReadFull :: "byte list \<Rightarrow> nat \<Rightarrow> (error + byte list) \<times> byte list" where
  "ReadFull r n =
     (if n = 0 then (Inr [], r)
      else if r = [] then (Inl EOF, [])
      else if length r < n then (Inl ErrUnexpectedEOF, [])
      else (Inr (take n r), drop n r))"

section \<open>The Ogg page reader (\<^verbatim>\<open>oggreader.go\<close>)\<close>

text \<open>
  The structs of lines 11-44. \<^verbatim>\<open>OGGPage\<close> embeds \<^verbatim>\<open>OGGPageHeader\<close>, which is record
  extension. The two signed 64-bit fields are \<open>64 word\<close>s, and \<open>- 1\<close> is the word of all
  ones. The field \<^verbatim>\<open>initialized\<close> occurs in three structs and is told apart by a prefix.
  \<^verbatim>\<open>CurrentPage\<close> is a pointer that is \<^verbatim>\<open>nil\<close> until the first \<^verbatim>\<open>readPage\<close>; nothing
  dereferences it before, so the model starts it at the zero page.
\<close>

record OGGPageHeader =
  CapturePattern :: "byte list"
  Version :: byte
  HeaderType :: byte
  AbsoluteGranulePosition :: "64 word"
  BitStreamSerialNumber :: "32 word"
  SequenceNumber :: "32 word"
  Checksum :: "32 word"
  SegmentsNumber :: byte

record OGGPage = OGGPageHeader +
  page_initialized :: bool
  packets :: "slice list"
  packetsCount :: nat
  packetSizes :: "nat list"
  totalSize :: nat
  needsContinue :: bool

record OGGReader =
  stream :: "byte list"
  bytesReadSuccesfully :: int
  ogg_initialized :: bool
  CurrentPage :: OGGPage
  lastPacket :: bool
  packetIndex :: nat
  lastPagePosition :: "64 word"

definition headerFlagContinuedPacket :: byte where
  "headerFlagContinuedPacket = 1"

definition headerFlagBeginningOfStream :: byte where
  "headerFlagBeginningOfStream = 2"

definition headerFlagEndOfStream :: byte where
  "headerFlagEndOfStream = 4"

definition capturePattern :: "byte list" where
  "capturePattern = [0x4F, 0x67, 0x67, 0x53]"

definition new_OGGPage :: OGGPage where
  "new_OGGPage =
     \<lparr>CapturePattern = [0, 0, 0, 0], Version = 0, HeaderType = 0, AbsoluteGranulePosition = 0,
      BitStreamSerialNumber = 0, SequenceNumber = 0, Checksum = 0, SegmentsNumber = 0,
      page_initialized = False, packets = [], packetsCount = 0, packetSizes = [],
      totalSize = 0, needsContinue = False\<rparr>"

definition NewOggReader :: "byte list \<Rightarrow> OGGReader" where
  "NewOggReader r =
     \<lparr>stream = r, bytesReadSuccesfully = 0, ogg_initialized = False, CurrentPage = new_OGGPage,
      lastPacket = False, packetIndex = 0, lastPagePosition = 0\<rparr>"

text \<open>
  \<^verbatim>\<open>binary.Read\<close> with \<^verbatim>\<open>binary.LittleEndian\<close> fills the eight header fields from the 27
  bytes read (line 118).
\<close>

fun le_int :: "byte list \<Rightarrow> int" where
  "le_int [] = 0"
| "le_int (b # bs) = uint b + 256 * le_int bs"

definition binary_Read :: "byte list \<Rightarrow> OGGPage \<Rightarrow> OGGPage" where
  "binary_Read data page =
     page\<lparr>CapturePattern := take 4 data,
          Version := data ! 4,
          HeaderType := data ! 5,
          AbsoluteGranulePosition := word_of_int (le_int (take 8 (drop 6 data))),
          BitStreamSerialNumber := word_of_int (le_int (take 4 (drop 14 data))),
          SequenceNumber := word_of_int (le_int (take 4 (drop 18 data))),
          Checksum := word_of_int (le_int (take 4 (drop 22 data))),
          SegmentsNumber := data ! 26\<rparr>"

text \<open>
  The loop of \<^verbatim>\<open>readPageHeader\<close> over the segment table (lines 136-148): \<open>sz\<close> is the
  local \<^verbatim>\<open>size\<close>, the page carries \<^verbatim>\<open>totalSize\<close>, \<^verbatim>\<open>packetsCount\<close> and \<^verbatim>\<open>packetSizes\<close>.
\<close>

fun walkSegments :: "byte list \<Rightarrow> nat \<Rightarrow> OGGPage \<Rightarrow> OGGPage" where
  "walkSegments [] sz page = page"
| "walkSegments (s # ss) sz page =
     (let size1 = sz + unat s;
          page1 = page\<lparr>totalSize := totalSize page + unat s\<rparr>
      in if s < 0xFF
         then walkSegments ss 0 (page1\<lparr>packetsCount := packetsCount page1 + 1,
                                        packetSizes := packetSizes page1 @ [size1]\<rparr>)
         else walkSegments ss size1 page1)"

text \<open>
  \<^verbatim>\<open>readPageHeader\<close> (lines 109-152). \<^verbatim>\<open>SegmentsNumber\<close> is a \<^verbatim>\<open>uint8\<close>, so
  \<^verbatim>\<open>SegmentsNumber-1\<close> on line 149 is computed in 8 bits before it indexes the table.
\<close>

definition readPageHeader :: "OGGReader \<Rightarrow> error option \<times> OGGReader" where
  "readPageHeader rd =
     (let page = CurrentPage rd
      in case ReadFull (stream rd) 27 of
           (Inl err, r1) \<Rightarrow> (Some err, rd\<lparr>stream := r1\<rparr>)
         | (Inr data, r1) \<Rightarrow>
             (let rd1 = rd\<lparr>stream := r1, bytesReadSuccesfully := bytesReadSuccesfully rd + 27\<rparr>;
                  page1 = binary_Read data page
              in if CapturePattern page1 \<noteq> capturePattern
                 then (Some MissingCapturePattern, rd1\<lparr>CurrentPage := page1\<rparr>)
                 else if Version page1 \<noteq> 0
                 then (Some UnsupportedVersion, rd1\<lparr>CurrentPage := page1\<rparr>)
                 else
                   (case ReadFull r1 (unat (SegmentsNumber page1)) of
                      (Inl err, r2) \<Rightarrow> (Some err, rd1\<lparr>stream := r2, CurrentPage := page1\<rparr>)
                    | (Inr segmentTable, r2) \<Rightarrow>
                        (let rd2 = rd1\<lparr>stream := r2,
                                     bytesReadSuccesfully :=
                                       bytesReadSuccesfully rd1 + uint (SegmentsNumber page1)\<rparr>;
                             page2 = walkSegments segmentTable 0
                                       (page1\<lparr>totalSize := 0, packetsCount := 0, packetSizes := []\<rparr>)
                         in case index segmentTable (unat (SegmentsNumber page2 - 1)) of
                              Inl err \<Rightarrow> (Some err, rd2\<lparr>CurrentPage := page2\<rparr>)
                            | Inr last_seg \<Rightarrow>
                                (None, rd2\<lparr>CurrentPage :=
                                             page2\<lparr>needsContinue := (last_seg = 0xFF)\<rparr>\<rparr>)))))"

text \<open>
  The loop of \<^verbatim>\<open>readPageContent\<close> (lines 99-103) returns the filled packet list and the
  final \<^verbatim>\<open>offset\<close>.
\<close>

fun slicePackets :: "slice \<Rightarrow> nat list \<Rightarrow> nat \<Rightarrow> nat \<Rightarrow> slice list
                       \<Rightarrow> error + slice list \<times> nat" where
  "slicePackets content [] i offset pkts = Inr (pkts, offset)"
| "slicePackets content (sz # sizes) i offset pkts =
     (case reslice content offset (offset + sz) of
        Inl err \<Rightarrow> Inl err
      | Inr s \<Rightarrow>
          if i < length pkts
          then slicePackets content sizes (i + 1) (offset + sz) (pkts[i := s])
          else Inl Panic)"

text \<open>
  \<^verbatim>\<open>readPageContent\<close> (lines 89-107). \<^verbatim>\<open>content\<close> is made with length and capacity
  \<^verbatim>\<open>totalSize\<close>.
\<close>

definition readPageContent :: "OGGReader \<Rightarrow> error option \<times> OGGReader" where
  "readPageContent rd =
     (let page = CurrentPage rd
      in case ReadFull (stream rd) (totalSize page) of
           (Inl err, r1) \<Rightarrow> (Some err, rd\<lparr>stream := r1\<rparr>)
         | (Inr data, r1) \<Rightarrow>
             (let content = make_slice data;
                  rd1 = rd\<lparr>stream := r1,
                          bytesReadSuccesfully := bytesReadSuccesfully rd + int (totalSize page)\<rparr>;
                  page1 = page\<lparr>packets := replicate (packetsCount page + 1) nil_slice\<rparr>
              in case slicePackets content (packetSizes page1) 0 0 (packets page1) of
                   Inl err \<Rightarrow> (Some err, rd1\<lparr>CurrentPage := page1\<rparr>)
                 | Inr (pkts, offset) \<Rightarrow>
                     (case reslice content offset (len content) of
                        Inl err \<Rightarrow> (Some err, rd1\<lparr>CurrentPage := page1\<lparr>packets := pkts\<rparr>\<rparr>)
                      | Inr rest \<Rightarrow>
                          (None, rd1\<lparr>CurrentPage :=
                                       page1\<lparr>packets := pkts[packetsCount page1 := rest]\<rparr>\<rparr>))))"

text \<open>
  \<^verbatim>\<open>readPage\<close> (lines 75-87).
\<close>

definition readPage :: "OGGReader \<Rightarrow> error option \<times> OGGReader" where
  "readPage rd =
     (case readPageHeader (rd\<lparr>CurrentPage := new_OGGPage\<rparr>) of
        (Some err, rd1) \<Rightarrow> (Some err, rd1)
      | (None, rd1) \<Rightarrow>
          (case readPageContent rd1 of
             (Some err, rd2) \<Rightarrow> (Some err, rd2)
           | (None, rd2) \<Rightarrow>
               (None, rd2\<lparr>CurrentPage := (CurrentPage rd2)\<lparr>page_initialized := True\<rparr>\<rparr>)))"

definition isFirst :: "OGGPage \<Rightarrow> bool" where
  "isFirst p = (HeaderType p AND headerFlagBeginningOfStream \<noteq> 0)"

definition isLast :: "OGGPage \<Rightarrow> bool" where
  "isLast p = (HeaderType p AND headerFlagEndOfStream \<noteq> 0)"

text \<open>
  \<^verbatim>\<open>NextPacket\<close> in three blocks: \<open>firstPage\<close> is lines 158-168, \<open>nextPage\<close> is lines
  170-181 (the body of the second \<^verbatim>\<open>if\<close> up to the recursive call) and \<open>takePacket\<close> is
  lines 184-189.
\<close>

definition firstPage :: "OGGReader \<Rightarrow> error option \<times> OGGReader" where
  "firstPage rd =
     (if \<not> ogg_initialized rd then
        (case readPage rd of
           (Some err, rd1) \<Rightarrow> (Some err, rd1)
         | (None, rd1) \<Rightarrow>
             (let rd2 = rd1\<lparr>packetIndex := 0\<rparr>;
                  rd3 = (if HeaderType (CurrentPage rd2) AND headerFlagContinuedPacket \<noteq> 0
                        then rd2\<lparr>packetIndex := 1\<rparr> else rd2)
              in (None, rd3\<lparr>ogg_initialized := True\<rparr>)))
      else (None, rd))"

definition nextPage :: "(nat \<Rightarrow> nat \<Rightarrow> nat) \<Rightarrow> OGGReader \<Rightarrow> error option \<times> OGGReader" where
  "nextPage g rd =
     (case index (packets (CurrentPage rd)) (packetsCount (CurrentPage rd)) of
        Inl err \<Rightarrow> (Some err, rd)
      | Inr rest \<Rightarrow>
          (let rd1 = (if AbsoluteGranulePosition (CurrentPage rd) \<noteq> - 1
                     then rd\<lparr>lastPagePosition := AbsoluteGranulePosition (CurrentPage rd)\<rparr>
                     else rd)
           in case readPage rd1 of
                (Some err, rd2) \<Rightarrow> (Some err, rd2)
              | (None, rd2) \<Rightarrow>
                  (if len rest > 0 then
                     (case index (packets (CurrentPage rd2)) 0 of
                        Inl err \<Rightarrow> (Some err, rd2)
                      | Inr p0 \<Rightarrow>
                          (None, rd2\<lparr>CurrentPage :=
                                       (CurrentPage rd2)\<lparr>packets :=
                                          (packets (CurrentPage rd2))[0 := append_slice g rest p0]\<rparr>,
                                     packetIndex := 0\<rparr>))
                   else (None, rd2\<lparr>packetIndex := 0\<rparr>))))"

definition takePacket :: "OGGReader \<Rightarrow> (error + slice) \<times> OGGReader" where
  "takePacket rd =
     (case index (packets (CurrentPage rd)) (packetIndex rd) of
        Inl err \<Rightarrow> (Inl err, rd)
      | Inr packet \<Rightarrow>
          (let rd1 = rd\<lparr>packetIndex := packetIndex rd + 1\<rparr>;
               rd2 = (if packetIndex rd1 = packetsCount (CurrentPage rd1) \<and> isLast (CurrentPage rd1)
                     then rd1\<lparr>lastPacket := True\<rparr> else rd1)
           in (Inr packet, rd2)))"

text \<open>
  \<^verbatim>\<open>NextPacket\<close> (lines 157-190) calls itself after it has read the next page. Each page
  read consumes at least the 27 header bytes of the source, which is the termination
  argument.
\<close>

lemma ReadFull_length:
  "ReadFull r n = (Inr bs, r1) \<Longrightarrow> length bs = n \<and> length r1 + n = length r"
  by (auto simp: ReadFull_def split: if_splits)

lemma ReadFull_le: "ReadFull r n = (x, r1) \<Longrightarrow> length r1 \<le> length r"
  by (auto simp: ReadFull_def split: if_splits)

lemma readPageHeader_stream:
  "readPageHeader rd = (None, rd1) \<Longrightarrow> length (stream rd1) + 27 \<le> length (stream rd)"
  by (auto simp: readPageHeader_def Let_def split: prod.splits sum.splits if_splits
           dest!: ReadFull_length)

lemma readPageContent_stream:
  "readPageContent rd = (x, rd1) \<Longrightarrow> length (stream rd1) \<le> length (stream rd)"
  by (auto simp: readPageContent_def Let_def split: prod.splits sum.splits if_splits
           dest!: ReadFull_le)

lemma readPage_stream:
  "readPage rd = (None, rd1) \<Longrightarrow> length (stream rd1) + 27 \<le> length (stream rd)"
  by (auto simp: readPage_def split: prod.splits option.splits
           dest!: readPageHeader_stream readPageContent_stream)

lemma firstPage_stream:
  "firstPage rd = (None, rd1) \<Longrightarrow> length (stream rd1) \<le> length (stream rd)"
  by (auto simp: firstPage_def Let_def split: prod.splits option.splits if_splits
           dest!: readPage_stream)

lemma nextPage_stream:
  "nextPage g rd = (None, rd1) \<Longrightarrow> length (stream rd1) < length (stream rd)"
  by (auto simp: nextPage_def Let_def split: prod.splits option.splits if_splits sum.splits
           dest!: readPage_stream)

function OGGReader_NextPacket :: "(nat \<Rightarrow> nat \<Rightarrow> nat) \<Rightarrow> OGGReader \<Rightarrow> (error + slice) \<times> OGGReader" where
  "OGGReader_NextPacket g rd =
     (case firstPage rd of
        (Some err, rd1) \<Rightarrow> (Inl err, rd1)
      | (None, rd1) \<Rightarrow>
          if packetIndex rd1 = packetsCount (CurrentPage rd1) then
            (case nextPage g rd1 of
               (Some err, rd2) \<Rightarrow> (Inl err, rd2)
             | (None, rd2) \<Rightarrow> OGGReader_NextPacket g rd2)
          else takePacket rd1)"
  by pat_completeness auto
termination
  apply (relation "measure (\<lambda>(g, rd). length (stream rd))")
   apply simp
  apply (auto dest!: firstPage_stream [OF sym] nextPage_stream [OF sym])
  done

declare OGGReader_NextPacket.simps [simp del]

section \<open>The TOC interpreter (\<^verbatim>\<open>opusreader.go\<close>)\<close>

definition fs :: int where
  "fs = 48000"

text \<open>
  \<^verbatim>\<open>getSamplesPerFrame\<close> (lines 61-82). \<^verbatim>\<open>data[0]\<close> panics on an empty slice. Go's
  \<^verbatim>\<open>/\<close> on \<^verbatim>\<open>int\<close> truncates towards zero, which is \<open>sdiv\<close>.
\<close>

definition getSamplesPerFrame :: "byte list \<Rightarrow> error + int" where
  "getSamplesPerFrame data =
     (case data of
        [] \<Rightarrow> Inl Panic
      | b0 # _ \<Rightarrow>
          Inr (if b0 AND 0x80 \<noteq> 0 then
                 (let audiosize = uint (drop_bit 3 b0 AND 0x3)
                  in push_bit (nat audiosize) fs sdiv 400)
               else if b0 AND 0x60 = 0x60 then
                 (if b0 AND 0x8 \<noteq> 0 then fs sdiv 50 else fs sdiv 100)
               else
                 (let audiosize = uint (drop_bit 3 b0 AND 0x3)
                  in if audiosize = 3 then fs * 60 sdiv 1000
                     else push_bit (nat audiosize) fs sdiv 100)))"

text \<open>
  \<^verbatim>\<open>getFramesNumberInPacket\<close> (lines 108-118). \<^verbatim>\<open>packet[1]\<close> is read without a
  length check, so a one-byte packet with packing code 3 panics.
\<close>

definition getFramesNumberInPacket :: "byte list \<Rightarrow> error + int" where
  "getFramesNumberInPacket packet =
     (case packet of
        [] \<Rightarrow> Inl Panic
      | b0 # others \<Rightarrow>
          (let code = b0 AND 3
           in if code = 0 then Inr 1
              else if code \<noteq> 3 then Inr 2
              else (case others of
                      [] \<Rightarrow> Inl Panic
                    | b1 # _ \<Rightarrow> Inr (uint b1 AND 0x3F))))"

section \<open>The Opus stream reader (\<^verbatim>\<open>opusreader.go\<close>)\<close>

text \<open>
  The structs of lines 17-58. \<^verbatim>\<open>OPUSPacket\<close> embeds \<^verbatim>\<open>OPUSPacketConfig\<close> and
  \<^verbatim>\<open>OPUSReader\<close> embeds \<^verbatim>\<open>OPUSIDHeader\<close>. The field \<^verbatim>\<open>CurrentPacket\<close> of the reader
  is never assigned nor read and is left out.
\<close>

record OPUSIDHeader =
  OpusCapturePattern :: "byte list"
  OpusVersion :: byte
  ChannelCount :: byte
  PreSkip :: "16 word"
  InputSampleRate :: "32 word"
  OutputGain :: "16 word"
  ChannelMappingFamily :: byte

record OPUSPacketConfig =
  ConfigCode :: byte
  SoundMode :: byte
  FramesNumber :: int
  SamplesNumberPerFrame :: int
  TotalSamples :: int

record OPUSPacket = OPUSPacketConfig +
  PacketData :: slice

record OPUSReader = OPUSIDHeader +
  OGGReader :: OGGReader
  VendorName :: slice
  skipped :: int
  initialized :: bool
  LastPacket :: bool
  Duration :: int

definition opusHeadPrefix :: "byte list" where
  "opusHeadPrefix = [0x4F, 0x70, 0x75, 0x73, 0x48, 0x65, 0x61, 0x64]"

definition opusTagsPrefix :: "byte list" where
  "opusTagsPrefix = [0x4F, 0x70, 0x75, 0x73, 0x54, 0x61, 0x67, 0x73]"

definition new_OPUSPacket :: OPUSPacket where
  "new_OPUSPacket =
     \<lparr>ConfigCode = 0, SoundMode = 0, FramesNumber = 0, SamplesNumberPerFrame = 0,
      TotalSamples = 0, PacketData = nil_slice\<rparr>"

definition NewOpusReader :: "byte list \<Rightarrow> OPUSReader" where
  "NewOpusReader r =
     \<lparr>OpusCapturePattern = replicate 8 0, OpusVersion = 0, ChannelCount = 0, PreSkip = 0,
      InputSampleRate = 0, OutputGain = 0, ChannelMappingFamily = 0,
      OGGReader = NewOggReader r, VendorName = nil_slice, skipped = 0, initialized = False,
      LastPacket = False, Duration = 0\<rparr>"

text \<open>
  \<^verbatim>\<open>readPacketConfig\<close> (lines 92-106).
\<close>

definition readPacketConfig :: "OPUSPacket \<Rightarrow> error option \<times> OPUSPacket" where
  "readPacketConfig p =
     (if len (PacketData p) < 1 then (Some InvalidTOC, p)
      else
        (case index (bytes (PacketData p)) 0 of
           Inl err \<Rightarrow> (Some err, p)
         | Inr b0 \<Rightarrow>
             (case getFramesNumberInPacket (bytes (PacketData p)) of
                Inl err \<Rightarrow> (Some err, p)
              | Inr frames \<Rightarrow>
                  (case getSamplesPerFrame (bytes (PacketData p)) of
                     Inl err \<Rightarrow> (Some err, p)
                   | Inr samples \<Rightarrow>
                       (let p1 = p\<lparr>ConfigCode := drop_bit 3 b0 AND 31,
                                   SoundMode := drop_bit 2 b0 AND 1,
                                   FramesNumber := frames,
                                   SamplesNumberPerFrame := samples,
                                   TotalSamples := 0\<rparr>
                        in (None, p1\<lparr>TotalSamples :=
                                        FramesNumber p1 * SamplesNumberPerFrame p1\<rparr>))))))"

text \<open>
  \<^verbatim>\<open>readIDHeader\<close> (lines 137-168): \<open>parseIDHeader\<close> is lines 143-163, everything
  between fetching the packet and storing the header. The magic is compared on
  \<^verbatim>\<open>headerPacketData[:8]\<close>, a slice expression; bytes 8, 9 and 18 are index expressions.
  \<^verbatim>\<open>opusHeader.CapturePattern\<close> is never assigned and stays zero.
\<close>

definition parseIDHeader :: "slice \<Rightarrow> error + OPUSIDHeader" where
  "parseIDHeader headerPacketData =
     (case reslice headerPacketData 0 8 of
        Inl err \<Rightarrow> Inl err
      | Inr prefix \<Rightarrow>
          if bytes prefix \<noteq> opusHeadPrefix then Inl InvalidIDPrefix
          else
            (case index (bytes headerPacketData) 8 of
               Inl err \<Rightarrow> Inl err
             | Inr version \<Rightarrow>
                 (case index (bytes headerPacketData) 9 of
                    Inl err \<Rightarrow> Inl err
                  | Inr channels \<Rightarrow>
                      if channels = 0 then Inl ChannelsCount
                      else
                        (case reslice headerPacketData 10 12 of
                           Inl err \<Rightarrow> Inl err
                         | Inr ps \<Rightarrow>
                             (case reslice headerPacketData 12 16 of
                                Inl err \<Rightarrow> Inl err
                              | Inr rate \<Rightarrow>
                                  (case reslice headerPacketData 16 18 of
                                     Inl err \<Rightarrow> Inl err
                                   | Inr gain \<Rightarrow>
                                       (case index (bytes headerPacketData) 18 of
                                          Inl err \<Rightarrow> Inl err
                                        | Inr family \<Rightarrow>
                                            if family \<noteq> 0 then Inl ChannelMapping
                                            else Inr \<lparr>OpusCapturePattern = replicate 8 0,
                                                      OpusVersion = version,
                                                      ChannelCount = channels,
                                                      PreSkip = word_of_int (le_int (bytes ps)),
                                                      InputSampleRate = word_of_int (le_int (bytes rate)),
                                                      OutputGain = word_of_int (le_int (bytes gain)),
                                                      ChannelMappingFamily = family\<rparr>)))))))"

definition set_OPUSIDHeader :: "OPUSIDHeader \<Rightarrow> OPUSReader \<Rightarrow> OPUSReader" where
  "set_OPUSIDHeader h rd =
     rd\<lparr>OpusCapturePattern := OpusCapturePattern h, OpusVersion := OpusVersion h,
        ChannelCount := ChannelCount h, PreSkip := PreSkip h,
        InputSampleRate := InputSampleRate h, OutputGain := OutputGain h,
        ChannelMappingFamily := ChannelMappingFamily h\<rparr>"

definition readIDHeader :: "(nat \<Rightarrow> nat \<Rightarrow> nat) \<Rightarrow> OPUSReader \<Rightarrow> error option \<times> OPUSReader" where
  "readIDHeader g rd =
     (case OGGReader_NextPacket g (OGGReader rd) of
        (Inl err, ogg) \<Rightarrow> (Some err, rd\<lparr>OGGReader := ogg\<rparr>)
      | (Inr headerPacketData, ogg) \<Rightarrow>
          (case parseIDHeader headerPacketData of
             Inl err \<Rightarrow> (Some err, rd\<lparr>OGGReader := ogg\<rparr>)
           | Inr opusHeader \<Rightarrow> (None, set_OPUSIDHeader opusHeader (rd\<lparr>OGGReader := ogg\<rparr>))))"

text \<open>
  \<^verbatim>\<open>readTags\<close> (lines 172-187): \<open>parseTags\<close> is lines 178-184. The upper bound
  \<^verbatim>\<open>12+vendorNameLength\<close> is computed in \<^verbatim>\<open>uint32\<close>.
\<close>

definition parseTags :: "slice \<Rightarrow> error + slice" where
  "parseTags headerPacketData =
     (case reslice headerPacketData 0 8 of
        Inl err \<Rightarrow> Inl err
      | Inr prefix \<Rightarrow>
          if bytes prefix \<noteq> opusTagsPrefix then Inl InvalidTagsPrefix
          else
            (case reslice headerPacketData 8 12 of
               Inl err \<Rightarrow> Inl err
             | Inr l \<Rightarrow>
                 (let vendorNameLength = (word_of_int (le_int (bytes l)) :: 32 word)
                  in reslice headerPacketData 12 (unat (12 + vendorNameLength)))))"

definition readTags :: "(nat \<Rightarrow> nat \<Rightarrow> nat) \<Rightarrow> OPUSReader \<Rightarrow> error option \<times> OPUSReader" where
  "readTags g rd =
     (case OGGReader_NextPacket g (OGGReader rd) of
        (Inl err, ogg) \<Rightarrow> (Some err, rd\<lparr>OGGReader := ogg\<rparr>)
      | (Inr headerPacketData, ogg) \<Rightarrow>
          (case parseTags headerPacketData of
             Inl err \<Rightarrow> (Some err, rd\<lparr>OGGReader := ogg\<rparr>)
           | Inr vendor \<Rightarrow> (None, rd\<lparr>OGGReader := ogg, VendorName := vendor\<rparr>)))"

text \<open>
  \<^verbatim>\<open>readHeaders\<close> (lines 120-134).
\<close>

definition readHeaders :: "(nat \<Rightarrow> nat \<Rightarrow> nat) \<Rightarrow> OPUSReader \<Rightarrow> error option \<times> OPUSReader" where
  "readHeaders g rd =
     (case readIDHeader g rd of
        (Some err, rd1) \<Rightarrow> (Some err, rd1)
      | (None, rd1) \<Rightarrow>
          (case readTags g rd1 of
             (Some err, rd2) \<Rightarrow> (Some err, rd2)
           | (None, rd2) \<Rightarrow> (None, rd2\<lparr>initialized := True\<rparr>)))"

text \<open>
  Lines 197-202 of \<^verbatim>\<open>NextPacket\<close>: the headers are read on the first call.
\<close>

definition ensureHeaders :: "(nat \<Rightarrow> nat \<Rightarrow> nat) \<Rightarrow> OPUSReader \<Rightarrow> error option \<times> OPUSReader" where
  "ensureHeaders g rd = (if \<not> initialized rd then readHeaders g rd else (None, rd))"

text \<open>
  Lines 224-241 of \<^verbatim>\<open>NextPacket\<close>: the pre-skip bookkeeping and the duration. On line
  239 the product is formed in the \<open>w\<close>-bit \<^verbatim>\<open>int\<close>, divided with truncation towards zero, and
  added in the \<open>w\<close>-bit \<^verbatim>\<open>int\<close>.
\<close>

definition applyPreSkip :: "nat \<Rightarrow> OPUSReader \<Rightarrow> OPUSPacket \<Rightarrow> OPUSPacket \<times> OPUSReader" where
  "applyPreSkip w rd opusPacket =
     (if SamplesNumberPerFrame opusPacket > 0 then
        (if FramesNumber opusPacket > 0 then
           (let needsSkip = uint (PreSkip rd) - skipped rd;
                (pkt1, rd1) =
                  (if needsSkip > 0 then
                     (let skip = (if TotalSamples opusPacket < needsSkip
                                  then TotalSamples opusPacket else needsSkip)
                      in (opusPacket\<lparr>TotalSamples := TotalSamples opusPacket - skip\<rparr>,
                          rd\<lparr>skipped := skipped rd + skip\<rparr>))
                   else (opusPacket, rd))
            in (pkt1, rd1\<lparr>Duration :=
                            int_wrap w (Duration rd1
                                        + int_wrap w (TotalSamples pkt1 * 1000000) sdiv 48000)\<rparr>))
         else (opusPacket, rd))
      else (opusPacket, rd))"

text \<open>
  \<^verbatim>\<open>NextPacket\<close> (lines 190-244) calls itself to skip a packet that starts with
  \<^verbatim>\<open>Op\<close>. Every packet that the Ogg layer returns either consumed bytes of the source or
  advanced the packet index within the current page, which \<open>ogg_rank\<close> measures.
\<close>

definition ogg_rank :: "(OGGReader \<times> OGGReader) set" where
  "ogg_rank = measures [\<lambda>rd. length (stream rd),
                        \<lambda>rd. length (packets (CurrentPage rd)) - packetIndex rd]"

lemma firstPage_cases:
  "firstPage rd = (None, rd1) \<Longrightarrow> rd1 = rd \<or> length (stream rd1) < length (stream rd)"
  by (auto simp: firstPage_def Let_def split: prod.splits option.splits if_splits
           dest!: readPage_stream)

lemma takePacket_rank:
  "takePacket rd = (Inr p, rd1) \<Longrightarrow>
     length (stream rd1) = length (stream rd)
     \<and> length (packets (CurrentPage rd1)) - packetIndex rd1
         < length (packets (CurrentPage rd)) - packetIndex rd"
  by (auto simp: takePacket_def Let_def index_def split: if_splits)

lemma OGGReader_NextPacket_rank:
  "OGGReader_NextPacket g rd = (Inr p, rd') \<Longrightarrow> (rd', rd) \<in> ogg_rank"
proof (induction g rd arbitrary: p rd' rule: OGGReader_NextPacket.induct)
  case (1 g rd)
  obtain e rd1 where fp: "firstPage rd = (e, rd1)"
    by (cases "firstPage rd")
  with "1.prems" have e: "e = None"
    by (cases e) (auto simp: OGGReader_NextPacket.simps [of g rd])
  from fp e have le1: "rd1 = rd \<or> length (stream rd1) < length (stream rd)"
    using firstPage_cases by blast
  show ?case
  proof (cases "packetIndex rd1 = packetsCount (CurrentPage rd1)")
    case True
    obtain e2 rd2 where np: "nextPage g rd1 = (e2, rd2)"
      by (cases "nextPage g rd1")
    with "1.prems" fp e True have e2: "e2 = None"
      by (cases e2) (auto simp: OGGReader_NextPacket.simps [of g rd])
    from np e2 have lt: "length (stream rd2) < length (stream rd1)"
      using nextPage_stream by blast
    from "1.prems" fp e True np e2 have "OGGReader_NextPacket g rd2 = (Inr p, rd')"
      by (simp add: OGGReader_NextPacket.simps [of g rd])
    then have "(rd', rd2) \<in> ogg_rank"
      using "1.IH" [OF fp [symmetric] e True np [symmetric] e2] by blast
    then have "length (stream rd') \<le> length (stream rd2)"
      by (auto simp: ogg_rank_def)
    with lt le1 show ?thesis
      by (auto simp: ogg_rank_def)
  next
    case False
    with "1.prems" fp e have "takePacket rd1 = (Inr p, rd')"
      by (simp add: OGGReader_NextPacket.simps [of g rd])
    from takePacket_rank [OF this] le1 show ?thesis
      by (auto simp: ogg_rank_def)
  qed
qed

lemma ogg_rank_trans: "(a, b) \<in> ogg_rank \<Longrightarrow> (b, c) \<in> ogg_rank \<Longrightarrow> (a, c) \<in> ogg_rank"
  by (auto simp: ogg_rank_def)

lemma readIDHeader_rank:
  "readIDHeader g rd = (None, rd1) \<Longrightarrow> (OGGReader rd1, OGGReader rd) \<in> ogg_rank"
  by (auto simp: readIDHeader_def set_OPUSIDHeader_def split: prod.splits sum.splits
           dest: OGGReader_NextPacket_rank)

lemma readTags_rank:
  "readTags g rd = (None, rd1) \<Longrightarrow> (OGGReader rd1, OGGReader rd) \<in> ogg_rank"
  by (auto simp: readTags_def split: prod.splits sum.splits dest: OGGReader_NextPacket_rank)

lemma readHeaders_rank:
  "readHeaders g rd = (None, rd1) \<Longrightarrow> (OGGReader rd1, OGGReader rd) \<in> ogg_rank"
  by (auto simp: readHeaders_def split: prod.splits option.splits
           dest!: readIDHeader_rank readTags_rank intro: ogg_rank_trans)

function OPUSReader_NextPacket ::
  "nat \<Rightarrow> (nat \<Rightarrow> nat \<Rightarrow> nat) \<Rightarrow> OPUSReader \<Rightarrow> (error + OPUSPacket) \<times> OPUSReader" where
  "OPUSReader_NextPacket w g rd =
     (if LastPacket rd then (Inl EOS, rd)
      else
        (case ensureHeaders g rd of
           (Some err, rd1) \<Rightarrow> (Inl err, rd1)
         | (None, rd1) \<Rightarrow>
             (case OGGReader_NextPacket g (OGGReader rd1) of
                (Inl err, ogg) \<Rightarrow> (Inl err, rd1\<lparr>OGGReader := ogg\<rparr>)
              | (Inr packetData, ogg) \<Rightarrow>
                  (let rd2 = rd1\<lparr>OGGReader := ogg\<rparr>
                   in case readPacketConfig (new_OPUSPacket\<lparr>PacketData := packetData\<rparr>) of
                        (Some err, _) \<Rightarrow> (Inl err, rd2)
                      | (None, opusPacket) \<Rightarrow>
                          (let rd3 = (if lastPacket (OGGReader rd2)
                                      then rd2\<lparr>LastPacket := True\<rparr> else rd2)
                           in case reslice packetData 0 2 of
                                Inl err \<Rightarrow> (Inl err, rd3)
                              | Inr prefix \<Rightarrow>
                                  if bytes prefix = [0x4F, 0x70]
                                  then OPUSReader_NextPacket w g rd3
                                  else (case applyPreSkip w rd3 opusPacket of
                                          (pkt, rd4) \<Rightarrow> (Inr pkt, rd4)))))))"
  by pat_completeness auto
termination
proof (relation "inv_image ogg_rank (\<lambda>(w, g, rd). OGGReader rd)", goal_cases)
  case 1
  show ?case by (simp add: ogg_rank_def)
next
  case 2
  then show ?case
    by (auto simp: ensureHeaders_def split: if_splits
             dest!: readHeaders_rank [OF sym] OGGReader_NextPacket_rank [OF sym]
             intro: ogg_rank_trans)
qed

declare OPUSReader_NextPacket.simps [simp del]

text \<open>
  The reader state after lines 204-217 of \<^verbatim>\<open>NextPacket\<close>: the Ogg reader has returned a
  packet and the latch of line 215 has been copied.
\<close>

definition latch :: "OGGReader \<Rightarrow> OPUSReader \<Rightarrow> OPUSReader" where
  "latch ogg rd1 = (if lastPacket ogg then rd1\<lparr>OGGReader := ogg, LastPacket := True\<rparr>
                    else rd1\<lparr>OGGReader := ogg\<rparr>)"

text \<open>
  \<open>delivers w g rd pkt rd'\<close> describes the last round of a successful call of
  \<^verbatim>\<open>NextPacket\<close> on \<open>rd\<close>: after zero or more skipped packets, which leave the
  duration and the skip counter alone, the Ogg reader returns \<open>pd\<close>, the packet passes
  lines 210-222, and lines 224-241 produce the result.
\<close>

definition delivers ::
  "nat \<Rightarrow> (nat \<Rightarrow> nat \<Rightarrow> nat) \<Rightarrow> OPUSReader \<Rightarrow> OPUSPacket \<Rightarrow> OPUSReader \<Rightarrow> bool" where
  "delivers w g rd pkt rd' \<longleftrightarrow>
     (\<exists>rd1 pd ogg cfg pre.
        \<not> LastPacket rd1 \<and> skipped rd1 = skipped rd \<and> Duration rd1 = Duration rd
        \<and> initialized rd1 \<and> (initialized rd \<longrightarrow> PreSkip rd1 = PreSkip rd)
        \<and> OGGReader_NextPacket g (OGGReader rd1) = (Inr pd, ogg)
        \<and> readPacketConfig (new_OPUSPacket\<lparr>PacketData := pd\<rparr>) = (None, cfg)
        \<and> reslice pd 0 2 = Inr pre \<and> bytes pre \<noteq> [0x4F, 0x70]
        \<and> applyPreSkip w (latch ogg rd1) cfg = (pkt, rd'))"

text \<open>
  \<open>drain g rd\<close> calls \<^verbatim>\<open>NextPacket\<close> of the Ogg reader until it fails and lists the
  packets that were returned.
\<close>

function drain :: "(nat \<Rightarrow> nat \<Rightarrow> nat) \<Rightarrow> OGGReader \<Rightarrow> slice list" where
  "drain g rd =
     (case OGGReader_NextPacket g rd of
        (Inl err, rd') \<Rightarrow> []
      | (Inr packet, rd') \<Rightarrow> packet # drain g rd')"
  by pat_completeness auto
termination
proof (relation "inv_image ogg_rank (\<lambda>(g, rd). rd)", goal_cases)
  case 1
  show ?case by (simp add: ogg_rank_def)
next
  case 2
  then show ?case
    by (auto dest!: OGGReader_NextPacket_rank [OF sym])
qed

declare drain.simps [simp del]

text \<open>
  \<open>loaded rd ps t\<close>: the reader holds a page whose complete packets have the bytes \<open>ps\<close>
  and whose trailing fragment has the bytes \<open>t\<close>.
\<close>

definition loaded :: "OGGReader \<Rightarrow> byte list list \<Rightarrow> byte list \<Rightarrow> bool" where
  "loaded rd ps t \<longleftrightarrow>
     ogg_initialized rd \<and> map bytes (packets (CurrentPage rd)) = ps @ [t]
     \<and> packetsCount (CurrentPage rd) = length ps"

text \<open>
  A packet is accepted as audio when it passes lines 210-222 of \<^verbatim>\<open>NextPacket\<close>:
  \<^verbatim>\<open>readPacketConfig\<close> succeeds, \<^verbatim>\<open>packetData[:2]\<close> is in range and is not \<^verbatim>\<open>Op\<close>.
\<close>

definition audio_packet :: "slice \<Rightarrow> bool" where
  "audio_packet pd \<longleftrightarrow>
     fst (readPacketConfig (new_OPUSPacket\<lparr>PacketData := pd\<rparr>)) = None
     \<and> (case reslice pd 0 2 of Inl err \<Rightarrow> False | Inr pre \<Rightarrow> bytes pre \<noteq> [0x4F, 0x70])"


section \<open>The tables of the specification\<close>

text \<open>
  The samples-per-frame table of the specification, written from its words: the row is
  chosen by bits 7, 6, 5 and 3 of the TOC byte, and \<open>s\<close> is the two-bit field at bits
  4..3.
\<close>

definition toc_samples :: "byte \<Rightarrow> int" where
  "toc_samples b0 =
     (let s = (unat b0 div 8) mod 4
      in if bit b0 7 then (48000 * 2 ^ s) div 400
         else if bit b0 6 \<and> bit b0 5 then (if bit b0 3 then 48000 div 50 else 48000 div 100)
         else if s = 3 then 48000 * 60 div 1000
         else (48000 * 2 ^ s) div 100)"

text \<open>
  The packet reassembly model of the specification. A page body is cut into segments by
  the lacing values of its segment table. Consecutive segments of value 255 concatenate
  into one packet, which the first segment of a value below 255 closes after adding its
  bytes; what is open after the last segment is the trailing fragment, which continues
  in the next segment that follows. \<open>lace\<close> takes the segments with their lacing values
  and the fragment carried in, and gives the complete packets and the fragment carried
  out; \<open>lace_sizes\<close> does the same for the sizes alone.
\<close>

fun split_body :: "nat list \<Rightarrow> byte list \<Rightarrow> byte list list" where
  "split_body [] b = []"
| "split_body (n # ns) b = take n b # split_body ns (drop n b)"

fun lace :: "(nat \<times> byte list) list \<Rightarrow> byte list \<Rightarrow> byte list list \<times> byte list" where
  "lace [] acc = ([], acc)"
| "lace ((n, seg) # xs) acc =
     (if n < 255 then (case lace xs [] of (ps, t) \<Rightarrow> ((acc @ seg) # ps, t))
      else lace xs (acc @ seg))"

fun lace_sizes :: "nat list \<Rightarrow> nat \<Rightarrow> nat list \<times> nat" where
  "lace_sizes [] sz = ([], sz)"
| "lace_sizes (n # ns) sz =
     (if n < 255 then (case lace_sizes ns 0 of (ps, t) \<Rightarrow> ((sz + n) # ps, t))
      else lace_sizes ns (sz + n))"

text \<open>
  A page as it lies in the byte stream: the 27 header bytes, the segment table and the
  body. It is well formed when the header starts with the capture pattern, has version 0
  and counts the entries of a non-empty table, and the body has as many bytes as the
  table announces.
\<close>

record raw_page =
  header_bytes :: "byte list"
  lacing :: "byte list"
  page_body :: "byte list"

definition wf_page :: "raw_page \<Rightarrow> bool" where
  "wf_page p \<longleftrightarrow>
     length (header_bytes p) = 27 \<and> take 4 (header_bytes p) = capturePattern
     \<and> header_bytes p ! 4 = 0 \<and> unat (header_bytes p ! 26) = length (lacing p)
     \<and> lacing p \<noteq> [] \<and> length (page_body p) = sum_list (map unat (lacing p))"

definition encode :: "raw_page \<Rightarrow> byte list" where
  "encode p = header_bytes p @ lacing p @ page_body p"

definition segments :: "raw_page \<Rightarrow> (nat \<times> byte list) list" where
  "segments p = zip (map unat (lacing p)) (split_body (map unat (lacing p)) (page_body p))"

text \<open>
  The position at which the vendor string ends in the comment header: 12 plus the
  little-endian 32-bit length at bytes 8..11, added in 32 bits.
\<close>

definition vendor_end :: "slice \<Rightarrow> nat" where
  "vendor_end d = unat (12 + (word_of_int (le_int (take 4 (drop 8 (backing d)))) :: 32 word))"

section \<open>Example inputs\<close>

text \<open>A well-formed page header with segment count 0 and nothing after it.\<close>

definition zero_seg_page :: "byte list" where
  "zero_seg_page =
     [0x4F, 0x67, 0x67, 0x53, 0, 0,  0, 0, 0, 0, 0, 0, 0, 0,  0, 0, 0, 0,  0, 0, 0, 0,
      0, 0, 0, 0,  0]"

text \<open>Eight bytes that are neither \<^verbatim>\<open>OpusHead\<close> nor \<^verbatim>\<open>OpusTags\<close>.\<close>

definition not_opus :: slice where
  "not_opus = make_slice [0x58, 0x58, 0x58, 0x58, 0x58, 0x58, 0x58, 0x58]"

text \<open>\<^verbatim>\<open>OpusHead\<close> followed by a version byte only, and by a version byte and channel count 0.\<close>

definition head_9 :: slice where
  "head_9 = make_slice [0x4F, 0x70, 0x75, 0x73, 0x48, 0x65, 0x61, 0x64, 1]"

definition head_10 :: slice where
  "head_10 = make_slice [0x4F, 0x70, 0x75, 0x73, 0x48, 0x65, 0x61, 0x64, 1, 0]"

text \<open>
  \<^verbatim>\<open>OpusTags\<close> with declared vendor length 3: once with two bytes of vendor string, once
  as a three-byte window whose backing array holds the whole header.
\<close>

definition tags_14 :: slice where
  "tags_14 = make_slice [0x4F, 0x70, 0x75, 0x73, 0x54, 0x61, 0x67, 0x73, 3, 0, 0, 0, 0x61, 0x62]"

definition tags_window :: slice where
  "tags_window =
     \<lparr>bytes = [0x4F, 0x70, 0x75],
      spare = [0x73, 0x54, 0x61, 0x67, 0x73, 3, 0, 0, 0, 0x61, 0x62, 0x63]\<rparr>"

text \<open>
  A stream of four pages: the identification header (pre-skip 312), the comment header,
  a page with the packets \<^verbatim>\<open>4F 70 01\<close> and \<^verbatim>\<open>78 01 02\<close> and granule position 960, and a
  last page with the end-of-stream flag, the packet \<^verbatim>\<open>79 05\<close> and granule position 1920.
  \<open>grow0\<close> is a run-time system that gives a grown slice no spare capacity.
\<close>

definition grow0 :: "nat \<Rightarrow> nat \<Rightarrow> nat" where
  "grow0 oldcap newlen = 0"

definition page_header :: "byte \<Rightarrow> byte list \<Rightarrow> byte \<Rightarrow> byte list" where
  "page_header flags granule n =
     [0x4F, 0x67, 0x67, 0x53, 0, flags] @ granule @ [1, 0, 0, 0,  0, 0, 0, 0,  0, 0, 0, 0,  n]"

definition id_packet :: "byte list" where
  "id_packet = [0x4F, 0x70, 0x75, 0x73, 0x48, 0x65, 0x61, 0x64,
                1, 2, 0x38, 0x01, 0x80, 0xBB, 0, 0, 0, 0, 0]"

definition tags_packet :: "byte list" where
  "tags_packet = [0x4F, 0x70, 0x75, 0x73, 0x54, 0x61, 0x67, 0x73,
                  3, 0, 0, 0, 0x61, 0x62, 0x63, 0, 0, 0, 0]"

definition ex_stream :: "byte list" where
  "ex_stream =
     page_header 2 [0, 0, 0, 0, 0, 0, 0, 0] 1 @ [19] @ id_packet
     @ page_header 0 [0, 0, 0, 0, 0, 0, 0, 0] 1 @ [19] @ tags_packet
     @ page_header 0 [0xC0, 0x03, 0, 0, 0, 0, 0, 0] 2 @ [3, 3] @ [0x4F, 0x70, 0x01] @ [0x78, 1, 2]
     @ page_header 4 [0x80, 0x07, 0, 0, 0, 0, 0, 0] 1 @ [2] @ [0x79, 5]"

text \<open>Three calls of \<^verbatim>\<open>NextPacket\<close> of the Opus reader on that stream.\<close>

definition call1 :: "(error + OPUSPacket) \<times> OPUSReader" where
  "call1 = OPUSReader_NextPacket 64 grow0 (NewOpusReader ex_stream)"

definition call2 :: "(error + OPUSPacket) \<times> OPUSReader" where
  "call2 = OPUSReader_NextPacket 64 grow0 (snd call1)"

definition call3 :: "(error + OPUSPacket) \<times> OPUSReader" where
  "call3 = OPUSReader_NextPacket 64 grow0 (snd call2)"

text \<open>
  The pulls from the Ogg reader that happen inside them: \<open>pull1\<close> right after the
  headers in the first call, \<open>pull2\<close> in the second call.
\<close>

definition pull2 :: "(error + slice) \<times> OGGReader" where
  "pull2 = OGGReader_NextPacket grow0 (OGGReader (snd call1))"

definition headers1 :: "error option \<times> OPUSReader" where
  "headers1 = ensureHeaders grow0 (NewOpusReader ex_stream)"

definition pull1 :: "(error + slice) \<times> OGGReader" where
  "pull1 = OGGReader_NextPacket grow0 (OGGReader (snd headers1))"


text \<open>
  A stream of two pages for the Ogg reader alone: granule position 5 on the first page and
  \<open>- 1\<close> on the last one, which has the end-of-stream flag; and three calls on it.
\<close>

definition ogg_stream_b :: "byte list" where
  "ogg_stream_b =
     page_header 2 [5, 0, 0, 0, 0, 0, 0, 0] 1 @ [2] @ [0x78, 1]
     @ page_header 4 [0xFF, 0xFF, 0xFF, 0xFF, 0xFF, 0xFF, 0xFF, 0xFF] 1 @ [2] @ [0x78, 2]"

definition ogg_b1 :: "(error + slice) \<times> OGGReader" where
  "ogg_b1 = OGGReader_NextPacket grow0 (NewOggReader ogg_stream_b)"

definition ogg_b2 :: "(error + slice) \<times> OGGReader" where
  "ogg_b2 = OGGReader_NextPacket grow0 (snd ogg_b1)"

definition ogg_b3 :: "(error + slice) \<times> OGGReader" where
  "ogg_b3 = OGGReader_NextPacket grow0 (snd ogg_b2)"

text \<open>
  Two pages with a packet that continues across the page boundary: 255 bytes at the end
  of the first page and one more byte at the start of the second.
\<close>

definition page_a :: raw_page where
  "page_a = \<lparr>header_bytes = page_header 2 [0, 0, 0, 0, 0, 0, 0, 0] 2,
             lacing = [2, 255],
             page_body = [1, 2] @ replicate 255 7\<rparr>"

definition page_b :: raw_page where
  "page_b = \<lparr>header_bytes = page_header 5 [3, 0, 0, 0, 0, 0, 0, 0] 2,
             lacing = [1, 3],
             page_body = [9] @ [4, 5, 6]\<rparr>"

section \<open>Facts about the TOC interpreter\<close>

lemma byte_exhaust:
  assumes "list_all (\<lambda>n. P (word_of_nat n :: byte)) [0..<256]"
  shows "P b"
proof -
  have "unat b < 256"
    using unsigned_less [of b] by simp
  moreover have "\<forall>n\<in>set [0..<256]. P (word_of_nat n)"
    using assms unfolding list_all_iff .
  ultimately have "P (word_of_nat (unat b))"
    by (metis atLeastLessThan_iff set_upt zero_le)
  then show ?thesis by simp
qed

lemma getSamplesPerFrame_table: "getSamplesPerFrame (b0 # rest) = Inr (toc_samples b0)"
proof (rule byte_exhaust [of _ b0])
  show "list_all (\<lambda>n. getSamplesPerFrame (word_of_nat n # rest)
                      = Inr (toc_samples (word_of_nat n))) [0..<256]"
    by code_simp
qed


lemma toc_samples_pos: "0 < toc_samples b0"
proof (rule byte_exhaust [of _ b0])
  show "list_all (\<lambda>n. 0 < toc_samples (word_of_nat n)) [0..<256]"
    by code_simp
qed

lemma getSamplesPerFrame_pos: "getSamplesPerFrame data = Inr s \<Longrightarrow> 0 < s"
  using getSamplesPerFrame_table toc_samples_pos
  by (cases data) (auto simp: getSamplesPerFrame_def)

lemma getFramesNumberInPacket_nonneg: "getFramesNumberInPacket data = Inr f \<Longrightarrow> 0 \<le> f"
  by (auto simp: getFramesNumberInPacket_def Let_def split: list.splits if_splits)

lemma getFramesNumberInPacket_ok:
  "2 \<le> length data \<Longrightarrow> \<exists>f. getFramesNumberInPacket data = Inr f"
  by (cases data; cases "tl data") (auto simp: getFramesNumberInPacket_def Let_def)

lemma getSamplesPerFrame_ok: "data \<noteq> [] \<Longrightarrow> \<exists>s. getSamplesPerFrame data = Inr s"
  by (cases data) (auto simp: getSamplesPerFrame_def)

text \<open>
  Claim C1. For a non-empty payload with first byte \<open>b0\<close>, \<^verbatim>\<open>getSamplesPerFrame\<close>
  returns the entry of the specification's table: with bit 7 set it is
  \<open>(48000 << s) / 400\<close>, one of 120, 240, 480, 960; with bits 7..5 equal to 011 it is
  960 when bit 3 is set and 480 otherwise; in every other case it is 2880 when \<open>s = 3\<close>
  and \<open>(48000 << s) / 100\<close>, one of 480, 960, 1920, otherwise. The three rows cover all
  256 values of \<open>b0\<close>: the function returns a value for each of them.
\<close>

theorem C1_samples_per_frame:
  "getSamplesPerFrame (b0 # rest) = Inr (toc_samples b0)
   \<and> toc_samples b0 \<in> (if bit b0 7 then {120, 240, 480, 960}
                        else if bit b0 6 \<and> bit b0 5 then (if bit b0 3 then {960} else {480})
                        else if (unat b0 div 8) mod 4 = 3 then {2880}
                        else {480, 960, 1920})"
proof (rule byte_exhaust [of _ b0])
  show "list_all (\<lambda>n. getSamplesPerFrame (word_of_nat n # rest) = Inr (toc_samples (word_of_nat n))
          \<and> toc_samples (word_of_nat n) \<in>
              (if bit (word_of_nat n :: byte) 7 then {120, 240, 480, 960}
               else if bit (word_of_nat n :: byte) 6 \<and> bit (word_of_nat n :: byte) 5
                 then (if bit (word_of_nat n :: byte) 3 then {960} else {480})
               else if (unat (word_of_nat n :: byte) div 8) mod 4 = 3 then {2880}
               else {480, 960, 1920})) [0..<256]"
    by code_simp
qed

text \<open>
  Claim C2. For a non-empty payload with packing code \<open>p = b0 & 3\<close>,
  \<^verbatim>\<open>getFramesNumberInPacket\<close> returns 1 when \<open>p = 0\<close>, 2 when \<open>p\<close> is 1 or 2, and the low
  six bits of the second byte when \<open>p = 3\<close> and the payload has at least two bytes.
\<close>

theorem C2_frames_per_packet:
  assumes "payload \<noteq> []"
  shows "(hd payload AND 3 = 0 \<longrightarrow> getFramesNumberInPacket payload = Inr 1)
       \<and> (hd payload AND 3 = 1 \<or> hd payload AND 3 = 2 \<longrightarrow> getFramesNumberInPacket payload = Inr 2)
       \<and> (hd payload AND 3 = 3 \<and> 2 \<le> length payload \<longrightarrow>
            getFramesNumberInPacket payload = Inr (int (unat (payload ! 1) mod 64)))
       \<and> hd payload AND 3 \<in> {0, 1, 2, 3}"
proof -
  obtain b0 others where p: "payload = b0 # others"
    using assms by (cases payload) auto
  have code: "b0 AND 3 \<in> {0, 1, 2, 3}"
  proof (rule byte_exhaust [of _ b0])
    show "list_all (\<lambda>n. (word_of_nat n :: byte) AND 3 \<in> {0, 1, 2, 3}) [0..<256]"
      by code_simp
  qed
  have low6: "uint b AND 0x3F = int (unat b mod 64)" for b :: byte
  proof -
    have "(0x3F :: int) = mask 6"
      by (simp add: mask_eq_exp_minus_1)
    then have "uint b AND 0x3F = take_bit 6 (uint b)"
      by (simp add: take_bit_eq_mask)
    also have "\<dots> = uint b mod 64"
      by (simp add: take_bit_eq_mod)
    also have "\<dots> = int (unat b mod 64)"
      by (simp add: zmod_int)
    finally show ?thesis .
  qed
  have c3: "b0 AND 3 = 3 \<Longrightarrow> 2 \<le> length payload \<Longrightarrow>
            getFramesNumberInPacket payload = Inr (int (unat (payload ! 1) mod 64))"
    using p low6 by (cases others) (simp_all add: getFramesNumberInPacket_def)
  show ?thesis
    using p code c3 by (auto simp: getFramesNumberInPacket_def)
qed

theorem C2_frames_per_packet_witness:
  "[0x4F, 0x70, 0x01] \<noteq> ([] :: byte list)
   \<and> getFramesNumberInPacket [0x4F, 0x70, 0x01] = Inr 48
   \<and> getFramesNumberInPacket [0x78] = Inr 1
   \<and> getFramesNumberInPacket [0x79] = Inr 2"
  using C2_frames_per_packet [of "[0x4F, 0x70, 0x01]"]
        C2_frames_per_packet [of "[0x78]"] C2_frames_per_packet [of "[0x79]"]
  by (simp add: getFramesNumberInPacket_def)

section \<open>Pages without segments\<close>

lemma readPageHeader_zero_segments:
  assumes "length data = 27" "take 4 data = capturePattern" "data ! 4 = 0" "data ! 26 = 0"
  shows "fst (readPageHeader (rd\<lparr>stream := data @ others\<rparr>)) = Some Panic"
  using assms
  by (auto simp: readPageHeader_def ReadFull_def binary_Read_def index_def Let_def)

text \<open>
  Claim C7 says that a page with segment count 0 is read without a failure or trap and
  that the reader moves on to the next page. On the code the header parse traps: line
  149 indexes the empty segment table at \<open>SegmentsNumber - 1\<close>, which is 255 in 8 bits.
  The theorem evaluates \<^verbatim>\<open>readPageHeader\<close> and \<^verbatim>\<open>readPage\<close> on a stream that consists
  of one such page header.
\<close>

theorem C7_zero_segments_trap:
  "fst (readPageHeader (NewOggReader zero_seg_page)) = Some Panic
   \<and> fst (readPage (NewOggReader zero_seg_page)) = Some Panic"
  by code_simp

section \<open>Header packets and their bounds\<close>

lemma parseID_bad_magic_iff:
  "parseIDHeader d = Inl InvalidIDPrefix \<longleftrightarrow> 8 \<le> cap d \<and> take 8 (backing d) \<noteq> opusHeadPrefix"
  by (auto simp: parseIDHeader_def reslice_def backing_def index_def split: sum.splits if_splits)

lemma parseID_short:
  assumes "8 \<le> cap d" "take 8 (backing d) = opusHeadPrefix" "len d < 19"
  shows "parseIDHeader d
         = (if 10 \<le> len d \<and> bytes d ! 9 = 0 then Inl ChannelsCount else Inl Panic)"
  using assms
  by (auto simp: parseIDHeader_def reslice_def backing_def index_def len_def cap_def
           split: sum.splits if_splits)

lemma parseTags_bad_magic_iff:
  "parseTags d = Inl InvalidTagsPrefix \<longleftrightarrow> 8 \<le> cap d \<and> take 8 (backing d) \<noteq> opusTagsPrefix"
  by (auto simp: parseTags_def reslice_def backing_def Let_def split: sum.splits if_splits)

lemma parseTags_prefix_ok:
  assumes "8 \<le> cap d" "take 8 (backing d) = opusTagsPrefix"
  shows "parseTags d =
          (if 12 \<le> cap d \<and> 12 \<le> vendor_end d \<and> vendor_end d \<le> cap d
           then Inr \<lparr>bytes = take (vendor_end d - 12) (drop 12 (backing d)),
                     spare = drop (vendor_end d) (backing d)\<rparr>
           else Inl Panic)"
  using assms
  by (auto simp: parseTags_def reslice_def backing_def Let_def vendor_end_def
           split: sum.splits if_splits)

text \<open>
  Claim C10 as stated fails: a first (second) packet of eight bytes that are not the
  magic is shorter than 19 (than 12) bytes, and still the parser returns the bad-magic
  error without any out-of-range access.
\<close>

theorem C10_counterexample:
  "len not_opus < 19 \<and> parseIDHeader not_opus = Inl InvalidIDPrefix
   \<and> len not_opus < 12 \<and> parseTags not_opus = Inl InvalidTagsPrefix"
  by code_simp

text \<open>
  Claim C10, amended. Neither header parser checks a length. Each compares the magic
  first, on the slice expression \<^verbatim>\<open>[:8]\<close>, which is bounded by the capacity of the
  packet slice: below 8 it is out of range, and otherwise the bad-magic error is returned
  exactly when those eight bytes differ from the magic, whatever the length of the packet.
  A first packet with the right magic and fewer than 19 bytes is out of range, except
  that one with at least 10 bytes and a zero at byte 9 gets the channel-count error. A
  second packet with the right magic is out of range when the capacity is below 12, or
  below 12 plus the declared vendor length, or when that sum wraps around below 12 in 32
  bits; otherwise the vendor string is returned.
\<close>

theorem C10_header_bounds:
  "(cap d < 8 \<longrightarrow> parseIDHeader d = Inl Panic \<and> parseTags d = Inl Panic)
   \<and> (parseIDHeader d = Inl InvalidIDPrefix
        \<longleftrightarrow> 8 \<le> cap d \<and> take 8 (backing d) \<noteq> opusHeadPrefix)
   \<and> (parseTags d = Inl InvalidTagsPrefix
        \<longleftrightarrow> 8 \<le> cap d \<and> take 8 (backing d) \<noteq> opusTagsPrefix)
   \<and> (8 \<le> cap d \<and> take 8 (backing d) = opusHeadPrefix \<and> len d < 19 \<longrightarrow>
        parseIDHeader d
        = (if 10 \<le> len d \<and> bytes d ! 9 = 0 then Inl ChannelsCount else Inl Panic))
   \<and> (8 \<le> cap d \<and> take 8 (backing d) = opusTagsPrefix \<longrightarrow>
        parseTags d
        = (if 12 \<le> cap d \<and> 12 \<le> vendor_end d \<and> vendor_end d \<le> cap d
           then Inr \<lparr>bytes = take (vendor_end d - 12) (drop 12 (backing d)),
                     spare = drop (vendor_end d) (backing d)\<rparr>
           else Inl Panic))"
proof -
  have "cap d < 8 \<Longrightarrow> parseIDHeader d = Inl Panic"
    by (simp add: parseIDHeader_def reslice_def)
  moreover have "cap d < 8 \<Longrightarrow> parseTags d = Inl Panic"
    by (simp add: parseTags_def reslice_def)
  ultimately show ?thesis
    using parseID_bad_magic_iff [of d] parseTags_bad_magic_iff [of d]
          parseID_short [of d] parseTags_prefix_ok [of d]
    by blast
qed

theorem C10_header_bounds_witness:
  "parseIDHeader head_9 = Inl Panic
   \<and> parseIDHeader head_10 = Inl ChannelsCount
   \<and> parseIDHeader not_opus = Inl InvalidIDPrefix
   \<and> parseTags tags_14 = Inl Panic
   \<and> parseTags tags_window = Inr \<lparr>bytes = [0x61, 0x62, 0x63], spare = []\<rparr>
   \<and> parseTags (make_slice [0x4F, 0x70]) = Inl Panic"
proof -
  have a: "8 \<le> cap head_9 \<and> take 8 (backing head_9) = opusHeadPrefix \<and> len head_9 < 19
           \<and> \<not> 10 \<le> len head_9"
    by code_simp
  have 1: "parseIDHeader head_9 = Inl Panic"
    using a C10_header_bounds [of head_9] by presburger
  have b: "8 \<le> cap head_10 \<and> take 8 (backing head_10) = opusHeadPrefix \<and> len head_10 < 19
           \<and> 10 \<le> len head_10 \<and> bytes head_10 ! 9 = 0"
    by code_simp
  have 2: "parseIDHeader head_10 = Inl ChannelsCount"
    using b C10_header_bounds [of head_10] by presburger
  have c: "8 \<le> cap not_opus \<and> take 8 (backing not_opus) \<noteq> opusHeadPrefix"
    by code_simp
  have 3: "parseIDHeader not_opus = Inl InvalidIDPrefix"
    using c C10_header_bounds [of not_opus] by presburger
  have d: "8 \<le> cap tags_14 \<and> take 8 (backing tags_14) = opusTagsPrefix
           \<and> \<not> vendor_end tags_14 \<le> cap tags_14"
    by code_simp
  have 4: "parseTags tags_14 = Inl Panic"
    using d C10_header_bounds [of tags_14] by presburger
  have e: "8 \<le> cap tags_window \<and> take 8 (backing tags_window) = opusTagsPrefix
           \<and> 12 \<le> cap tags_window \<and> 12 \<le> vendor_end tags_window
           \<and> vendor_end tags_window \<le> cap tags_window"
    by code_simp
  have e': "take (vendor_end tags_window - 12) (drop 12 (backing tags_window)) = [0x61, 0x62, 0x63]
            \<and> drop (vendor_end tags_window) (backing tags_window) = []"
    by code_simp
  have "parseTags tags_window
        = Inr \<lparr>bytes = take (vendor_end tags_window - 12) (drop 12 (backing tags_window)),
                spare = drop (vendor_end tags_window) (backing tags_window)\<rparr>"
    using e C10_header_bounds [of tags_window] by presburger
  then have 5: "parseTags tags_window = Inr \<lparr>bytes = [0x61, 0x62, 0x63], spare = []\<rparr>"
    using e' by simp
  have f: "cap (make_slice [0x4F, 0x70]) < 8"
    by code_simp
  have 6: "parseTags (make_slice [0x4F, 0x70]) = Inl Panic"
    using f C10_header_bounds [of "make_slice [0x4F, 0x70]"] by presburger
  show ?thesis
    using 1 2 3 4 5 6 by simp
qed

section \<open>Facts about the Opus reader\<close>

lemma readPacketConfig_ok:
  assumes "readPacketConfig p = (None, q)"
  shows "PacketData q = PacketData p \<and> 0 < SamplesNumberPerFrame q \<and> 0 \<le> FramesNumber q
         \<and> TotalSamples q = FramesNumber q * SamplesNumberPerFrame q"
  using assms
  by (auto simp: readPacketConfig_def Let_def split: if_splits sum.splits
           dest: getSamplesPerFrame_pos getFramesNumberInPacket_nonneg)

lemma readPacketConfig_err: "readPacketConfig p = (Some e, q) \<Longrightarrow> q = p"
  by (auto simp: readPacketConfig_def Let_def split: if_splits sum.splits)

lemma readPacketConfig_succeeds:
  assumes "2 \<le> len (PacketData p)"
  shows "\<exists>q. readPacketConfig p = (None, q)"
proof -
  obtain f where f: "getFramesNumberInPacket (bytes (PacketData p)) = Inr f"
    using getFramesNumberInPacket_ok assms by (auto simp: len_def)
  obtain s where s: "getSamplesPerFrame (bytes (PacketData p)) = Inr s"
    using getSamplesPerFrame_ok [of "bytes (PacketData p)"] assms by (fastforce simp: len_def)
  show ?thesis
    using assms f s by (auto simp: readPacketConfig_def index_def len_def Let_def)
qed

lemma applyPreSkip_eq:
  assumes "0 < SamplesNumberPerFrame p" "0 \<le> FramesNumber p"
      and "TotalSamples p = FramesNumber p * SamplesNumberPerFrame p"
      and "applyPreSkip w rd p = (q, rd')"
  shows "TotalSamples q = (if 0 < uint (PreSkip rd) - skipped rd
                           then TotalSamples p - min (uint (PreSkip rd) - skipped rd) (TotalSamples p)
                           else TotalSamples p)"
    and "skipped rd' = (if 0 < uint (PreSkip rd) - skipped rd
                        then skipped rd + min (uint (PreSkip rd) - skipped rd) (TotalSamples p)
                        else skipped rd)"
    and "Duration rd' = (if 0 < FramesNumber q
                         then int_wrap w (Duration rd + int_wrap w (TotalSamples q * 1000000) sdiv 48000)
                         else Duration rd)"
    and "q = p\<lparr>TotalSamples := TotalSamples q\<rparr>"
    and "rd' = rd\<lparr>skipped := skipped rd', Duration := Duration rd'\<rparr>"
    and "0 \<le> TotalSamples q"
proof -
  have raw: "0 \<le> TotalSamples p"
    using assms(1-3) by simp
  show "TotalSamples q = (if 0 < uint (PreSkip rd) - skipped rd
                           then TotalSamples p - min (uint (PreSkip rd) - skipped rd) (TotalSamples p)
                           else TotalSamples p)"
    using assms raw by (cases "FramesNumber p = 0") (auto simp: applyPreSkip_def Let_def min_def split: if_splits)
  then have nn: "0 \<le> TotalSamples q"
    using raw by (auto simp: min_def split: if_splits)
  then show "0 \<le> TotalSamples q" .
  show "skipped rd' = (if 0 < uint (PreSkip rd) - skipped rd
                        then skipped rd + min (uint (PreSkip rd) - skipped rd) (TotalSamples p)
                        else skipped rd)"
    using assms raw by (cases "FramesNumber p = 0") (auto simp: applyPreSkip_def Let_def min_def split: if_splits)
  show "Duration rd' = (if 0 < FramesNumber q
                         then int_wrap w (Duration rd + int_wrap w (TotalSamples q * 1000000) sdiv 48000)
                         else Duration rd)"
    using assms by (auto simp: applyPreSkip_def Let_def split: if_splits)
  show "q = p\<lparr>TotalSamples := TotalSamples q\<rparr>"
    using assms by (auto simp: applyPreSkip_def Let_def split: if_splits)
  show "rd' = rd\<lparr>skipped := skipped rd', Duration := Duration rd'\<rparr>"
    using assms by (auto simp: applyPreSkip_def Let_def split: if_splits)
qed

lemma readIDHeader_keeps:
  "readIDHeader g rd = (e, rd1) \<Longrightarrow>
     skipped rd1 = skipped rd \<and> Duration rd1 = Duration rd \<and> LastPacket rd1 = LastPacket rd
     \<and> initialized rd1 = initialized rd"
  by (auto simp: readIDHeader_def set_OPUSIDHeader_def split: prod.splits sum.splits)

lemma readTags_keeps:
  "readTags g rd = (e, rd1) \<Longrightarrow>
     skipped rd1 = skipped rd \<and> Duration rd1 = Duration rd \<and> LastPacket rd1 = LastPacket rd
     \<and> PreSkip rd1 = PreSkip rd"
  by (auto simp: readTags_def split: prod.splits sum.splits)

lemma readHeaders_keeps:
  "readHeaders g rd = (e, rd1) \<Longrightarrow>
     skipped rd1 = skipped rd \<and> Duration rd1 = Duration rd \<and> LastPacket rd1 = LastPacket rd"
  by (auto simp: readHeaders_def split: prod.splits option.splits
           dest!: readIDHeader_keeps readTags_keeps)

lemma ensureHeaders_keeps:
  "ensureHeaders g rd = (e, rd1) \<Longrightarrow>
     skipped rd1 = skipped rd \<and> Duration rd1 = Duration rd \<and> LastPacket rd1 = LastPacket rd"
  by (auto simp: ensureHeaders_def split: if_splits dest!: readHeaders_keeps)

lemma ensureHeaders_initialized:
  "ensureHeaders g rd = (None, rd1) \<Longrightarrow> initialized rd1"
  by (auto simp: ensureHeaders_def readHeaders_def split: if_splits prod.splits option.splits)

lemma ensureHeaders_idle: "initialized rd \<Longrightarrow> ensureHeaders g rd = (None, rd)"
  by (simp add: ensureHeaders_def)

lemma NextPacket_EOS: "LastPacket rd \<Longrightarrow> OPUSReader_NextPacket w g rd = (Inl EOS, rd)"
  by (simp add: OPUSReader_NextPacket.simps)

lemma NextPacket_headers_fail:
  "\<not> LastPacket rd \<Longrightarrow> ensureHeaders g rd = (Some e, rd1) \<Longrightarrow>
   OPUSReader_NextPacket w g rd = (Inl e, rd1)"
  by (simp add: OPUSReader_NextPacket.simps)

lemma NextPacket_ogg_fail:
  "\<not> LastPacket rd \<Longrightarrow> ensureHeaders g rd = (None, rd1) \<Longrightarrow>
   OGGReader_NextPacket g (OGGReader rd1) = (Inl e, ogg) \<Longrightarrow>
   OPUSReader_NextPacket w g rd = (Inl e, rd1\<lparr>OGGReader := ogg\<rparr>)"
  by (simp add: OPUSReader_NextPacket.simps)

lemma NextPacket_config_fail:
  "\<not> LastPacket rd \<Longrightarrow> ensureHeaders g rd = (None, rd1) \<Longrightarrow>
   OGGReader_NextPacket g (OGGReader rd1) = (Inr pd, ogg) \<Longrightarrow>
   readPacketConfig (new_OPUSPacket\<lparr>PacketData := pd\<rparr>) = (Some e, q) \<Longrightarrow>
   OPUSReader_NextPacket w g rd = (Inl e, rd1\<lparr>OGGReader := ogg\<rparr>)"
  by (simp add: OPUSReader_NextPacket.simps)

lemma NextPacket_slice_fail:
  "\<not> LastPacket rd \<Longrightarrow> ensureHeaders g rd = (None, rd1) \<Longrightarrow>
   OGGReader_NextPacket g (OGGReader rd1) = (Inr pd, ogg) \<Longrightarrow>
   readPacketConfig (new_OPUSPacket\<lparr>PacketData := pd\<rparr>) = (None, cfg) \<Longrightarrow>
   reslice pd 0 2 = Inl e \<Longrightarrow>
   OPUSReader_NextPacket w g rd = (Inl e, latch ogg rd1)"
  by (simp add: OPUSReader_NextPacket.simps latch_def)

lemma NextPacket_skip:
  "\<not> LastPacket rd \<Longrightarrow> ensureHeaders g rd = (None, rd1) \<Longrightarrow>
   OGGReader_NextPacket g (OGGReader rd1) = (Inr pd, ogg) \<Longrightarrow>
   readPacketConfig (new_OPUSPacket\<lparr>PacketData := pd\<rparr>) = (None, cfg) \<Longrightarrow>
   reslice pd 0 2 = Inr pre \<Longrightarrow> bytes pre = [0x4F, 0x70] \<Longrightarrow>
   OPUSReader_NextPacket w g rd = OPUSReader_NextPacket w g (latch ogg rd1)"
  by (simp add: OPUSReader_NextPacket.simps [of w g rd] latch_def)

lemma NextPacket_audio:
  "\<not> LastPacket rd \<Longrightarrow> ensureHeaders g rd = (None, rd1) \<Longrightarrow>
   OGGReader_NextPacket g (OGGReader rd1) = (Inr pd, ogg) \<Longrightarrow>
   readPacketConfig (new_OPUSPacket\<lparr>PacketData := pd\<rparr>) = (None, cfg) \<Longrightarrow>
   reslice pd 0 2 = Inr pre \<Longrightarrow> bytes pre \<noteq> [0x4F, 0x70] \<Longrightarrow>
   OPUSReader_NextPacket w g rd = (Inr (fst (applyPreSkip w (latch ogg rd1) cfg)),
                                 snd (applyPreSkip w (latch ogg rd1) cfg))"
  by (simp add: OPUSReader_NextPacket.simps [of w g rd] latch_def split: prod.splits)

lemma NextPacket_cases:
  assumes "OPUSReader_NextPacket w g rd = (r, rd')"
  shows "case r of
           Inl e \<Rightarrow> Duration rd' = Duration rd \<and> skipped rd' = skipped rd
         | Inr pkt \<Rightarrow> delivers w g rd pkt rd'"
  using assms
proof (induction w g rd arbitrary: r rd' rule: OPUSReader_NextPacket.induct)
  case (1 w g rd)
  show ?case
  proof (cases "LastPacket rd")
    case True
    with "1.prems" show ?thesis
      by (auto simp: NextPacket_EOS)
  next
    case nl: False
    obtain e rd1 where eh: "ensureHeaders g rd = (e, rd1)"
      by (cases "ensureHeaders g rd")
    note k1 = ensureHeaders_keeps [OF eh]
    have k2: "initialized rd \<longrightarrow> PreSkip rd1 = PreSkip rd"
      using eh by (auto simp: ensureHeaders_def)
    show ?thesis
    proof (cases e)
      case (Some err)
      with "1.prems" nl eh k1 show ?thesis
        by (auto simp: NextPacket_headers_fail)
    next
      case None
      obtain x ogg where og: "OGGReader_NextPacket g (OGGReader rd1) = (x, ogg)"
        by (cases "OGGReader_NextPacket g (OGGReader rd1)")
      show ?thesis
      proof (cases x)
        case (Inl err)
        with "1.prems" nl eh None og k1 show ?thesis
          by (auto simp: NextPacket_ogg_fail)
      next
        case (Inr pd)
        obtain c cfg where rc: "readPacketConfig (new_OPUSPacket\<lparr>PacketData := pd\<rparr>) = (c, cfg)"
          by (cases "readPacketConfig (new_OPUSPacket\<lparr>PacketData := pd\<rparr>)")
        have k3: "skipped (latch ogg rd1) = skipped rd \<and> Duration (latch ogg rd1) = Duration rd"
          using k1 by (simp add: latch_def)
        have k4: "e = None \<longrightarrow> initialized (latch ogg rd1)"
          using eh ensureHeaders_initialized by (auto simp: latch_def)
        have k5: "PreSkip (latch ogg rd1) = PreSkip rd1"
          by (simp add: latch_def)
        show ?thesis
        proof (cases c)
          case (Some err)
          with "1.prems" nl eh None og Inr rc k1 show ?thesis
            by (auto simp: NextPacket_config_fail)
        next
          case cn: None
          show ?thesis
          proof (cases "reslice pd 0 2")
            case (Inl err)
            with "1.prems" nl eh None og Inr rc cn k3 show ?thesis
              by (auto simp: NextPacket_slice_fail)
          next
            case pre: (Inr pre)
            show ?thesis
            proof (cases "bytes pre = [0x4F, 0x70]")
              case True
              have "OPUSReader_NextPacket w g (latch ogg rd1) = (r, rd')"
                using "1.prems" NextPacket_skip [OF nl eh [unfolded None] og [unfolded Inr] rc [unfolded cn] pre True]
                by simp
              then have "case r of
                           Inl e \<Rightarrow> Duration rd' = Duration (latch ogg rd1) \<and> skipped rd' = skipped (latch ogg rd1)
                         | Inr pkt \<Rightarrow> delivers w g (latch ogg rd1) pkt rd'"
                using "1.IH" [OF nl eh [symmetric] None og [symmetric] Inr refl rc [symmetric] cn _ pre True]
                by (simp add: latch_def)
              then show ?thesis
                using k2 k3 k4 k5 None by (cases r) (auto simp: delivers_def)
            next
              case False
              have "(r, rd') = (Inr (fst (applyPreSkip w (latch ogg rd1) cfg)),
                                snd (applyPreSkip w (latch ogg rd1) cfg))"
                using "1.prems" NextPacket_audio [OF nl eh [unfolded None] og [unfolded Inr] rc [unfolded cn] pre False]
                by simp
              then obtain pkt where r: "r = Inr pkt" and ap: "applyPreSkip w (latch ogg rd1) cfg = (pkt, rd')"
                by (cases "applyPreSkip w (latch ogg rd1) cfg") auto
              have "delivers w g rd pkt rd'"
                unfolding delivers_def
                using nl k1 k2 og [unfolded Inr] rc [unfolded cn] pre False ap
                      ensureHeaders_initialized [OF eh [unfolded None]]
                by blast
              with r show ?thesis by simp
            qed
          qed
        qed
      qed
    qed
  qed
qed

lemma applyPreSkip_keeps:
  assumes "applyPreSkip w rd p = (q, rd')"
  shows "FramesNumber q = FramesNumber p" "SamplesNumberPerFrame q = SamplesNumberPerFrame p"
    "PacketData q = PacketData p" "ConfigCode q = ConfigCode p" "SoundMode q = SoundMode p"
    "PreSkip rd' = PreSkip rd" "OGGReader rd' = OGGReader rd" "LastPacket rd' = LastPacket rd"
    "initialized rd' = initialized rd"
  using assms by (auto simp: applyPreSkip_def Let_def split: if_splits)

lemma latch_simps:
  "OGGReader (latch ogg rd1) = ogg" "PreSkip (latch ogg rd1) = PreSkip rd1"
  "skipped (latch ogg rd1) = skipped rd1" "Duration (latch ogg rd1) = Duration rd1"
  "initialized (latch ogg rd1) = initialized rd1"
  "LastPacket (latch ogg rd1) = (lastPacket ogg \<or> LastPacket rd1)"
  by (simp_all add: latch_def)

lemma delivers_facts:
  assumes "delivers w g rd pkt rd'"
  shows "TotalSamples pkt
         = (if 0 < uint (PreSkip rd') - skipped rd
            then FramesNumber pkt * SamplesNumberPerFrame pkt
                 - min (uint (PreSkip rd') - skipped rd) (FramesNumber pkt * SamplesNumberPerFrame pkt)
            else FramesNumber pkt * SamplesNumberPerFrame pkt)"
    and "skipped rd'
         = (if 0 < uint (PreSkip rd') - skipped rd
            then skipped rd + min (uint (PreSkip rd') - skipped rd)
                                   (FramesNumber pkt * SamplesNumberPerFrame pkt)
            else skipped rd)"
    and "Duration rd' = (if 0 < FramesNumber pkt
                         then int_wrap w (Duration rd + int_wrap w (TotalSamples pkt * 1000000) sdiv 48000)
                         else Duration rd)"
    and "\<exists>ogg. OGGReader_NextPacket g ogg = (Inr (PacketData pkt), OGGReader rd')"
    and "initialized rd'" and "initialized rd \<longrightarrow> PreSkip rd' = PreSkip rd"
    and "LastPacket rd' = lastPacket (OGGReader rd')"
    and "0 \<le> FramesNumber pkt" and "0 < SamplesNumberPerFrame pkt" and "0 \<le> TotalSamples pkt"
    and "\<exists>pre. reslice (PacketData pkt) 0 2 = Inr pre \<and> bytes pre \<noteq> [0x4F, 0x70]"
proof -
  from assms obtain rd1 pd ogg cfg pre where
    nl: "\<not> LastPacket rd1" and sk: "skipped rd1 = skipped rd" and du: "Duration rd1 = Duration rd"
    and ini: "initialized rd1" and ps: "initialized rd \<longrightarrow> PreSkip rd1 = PreSkip rd"
    and og: "OGGReader_NextPacket g (OGGReader rd1) = (Inr pd, ogg)"
    and rc: "readPacketConfig (new_OPUSPacket\<lparr>PacketData := pd\<rparr>) = (None, cfg)"
    and pre: "reslice pd 0 2 = Inr pre" "bytes pre \<noteq> [0x4F, 0x70]"
    and ap: "applyPreSkip w (latch ogg rd1) cfg = (pkt, rd')"
    unfolding delivers_def by blast
  note c = readPacketConfig_ok [OF rc]
  from c have c1: "0 < SamplesNumberPerFrame cfg" and c2: "0 \<le> FramesNumber cfg"
    and c3: "TotalSamples cfg = FramesNumber cfg * SamplesNumberPerFrame cfg"
    and c4: "PacketData cfg = pd"
    by simp_all
  note a = applyPreSkip_eq [OF c1 c2 c3 ap]
  note k = applyPreSkip_keeps [OF ap]
  show "0 \<le> TotalSamples pkt" using a(6) .
  show "0 \<le> FramesNumber pkt" using k(1) c2 by simp
  show "0 < SamplesNumberPerFrame pkt" using k(2) c1 by simp
  show "initialized rd'" using k(9) ini by (simp add: latch_simps)
  show "initialized rd \<longrightarrow> PreSkip rd' = PreSkip rd" using k(6) ps by (simp add: latch_simps)
  show "LastPacket rd' = lastPacket (OGGReader rd')" using k(7,8) nl by (simp add: latch_simps)
  show "\<exists>ogg. OGGReader_NextPacket g ogg = (Inr (PacketData pkt), OGGReader rd')"
    using og k(3,7) c4 by (auto simp: latch_simps)
  show "\<exists>pre. reslice (PacketData pkt) 0 2 = Inr pre \<and> bytes pre \<noteq> [0x4F, 0x70]"
    using pre k(3) c4 by simp
  show "Duration rd' = (if 0 < FramesNumber pkt
                         then int_wrap w (Duration rd + int_wrap w (TotalSamples pkt * 1000000) sdiv 48000)
                         else Duration rd)"
    using a(3) du by (simp add: latch_simps)
  show "TotalSamples pkt
         = (if 0 < uint (PreSkip rd') - skipped rd
            then FramesNumber pkt * SamplesNumberPerFrame pkt
                 - min (uint (PreSkip rd') - skipped rd) (FramesNumber pkt * SamplesNumberPerFrame pkt)
            else FramesNumber pkt * SamplesNumberPerFrame pkt)"
    using a(1) k(1,2,6) c3 sk by (simp add: latch_simps)
  show "skipped rd'
         = (if 0 < uint (PreSkip rd') - skipped rd
            then skipped rd + min (uint (PreSkip rd') - skipped rd)
                                   (FramesNumber pkt * SamplesNumberPerFrame pkt)
            else skipped rd)"
    using a(2) k(1,2,6) c3 sk by (simp add: latch_simps)
qed

lemma NextPacket_Duration:
  assumes "OPUSReader_NextPacket w g rd = (r, rd')"
  shows "Duration rd'
         = (case r of Inl e \<Rightarrow> Duration rd
            | Inr pkt \<Rightarrow>
                if 0 < FramesNumber pkt
                then int_wrap w (Duration rd + int_wrap w (TotalSamples pkt * 1000000) sdiv 48000)
                else Duration rd)"
  using NextPacket_cases [OF assms] delivers_facts(3) [of w g rd _ rd']
  by (cases r) simp_all

text \<open>
  Claim C3. For every packet that \<^verbatim>\<open>NextPacket\<close> returns, with \<open>raw\<close> the product of its
  frame count and samples per frame and \<open>need\<close> the header's pre-skip minus the samples
  skipped before the call: if \<open>need > 0\<close> the reported \<^verbatim>\<open>TotalSamples\<close> is
  \<open>raw - min need raw\<close> and the skip counter grows by \<open>min need raw\<close>; otherwise the
  packet reports \<open>raw\<close> and the counter stays. So a pre-skip that the packet covers is
  used up by it, and one that exceeds the packet leaves the packet with 0 samples and
  carries the remainder to the next packet, for which the pre-skip value is the same. The
  payload is the slice that the Ogg reader returned.
\<close>

theorem C3_pre_skip:
  assumes "OPUSReader_NextPacket w g rd = (Inr pkt, rd')"
  shows "(let raw = FramesNumber pkt * SamplesNumberPerFrame pkt;
              need = uint (PreSkip rd') - skipped rd
          in (if 0 < need
              then TotalSamples pkt = raw - min need raw \<and> skipped rd' = skipped rd + min need raw
              else TotalSamples pkt = raw \<and> skipped rd' = skipped rd)
             \<and> (0 < need \<and> need \<le> raw \<longrightarrow> skipped rd' = uint (PreSkip rd'))
             \<and> (raw < need \<longrightarrow>
                   TotalSamples pkt = 0 \<and> uint (PreSkip rd') - skipped rd' = need - raw))
         \<and> (\<exists>ogg. OGGReader_NextPacket g ogg = (Inr (PacketData pkt), OGGReader rd'))
         \<and> (\<forall>pkt2 rd2. OPUSReader_NextPacket w g rd' = (Inr pkt2, rd2) \<longrightarrow> PreSkip rd2 = PreSkip rd')"
proof -
  have d: "delivers w g rd pkt rd'"
    using NextPacket_cases [OF assms] by simp
  note f = delivers_facts [OF d]
  have raw: "0 \<le> FramesNumber pkt * SamplesNumberPerFrame pkt"
    using f(8,9) by simp
  have next_call: "PreSkip rd2 = PreSkip rd'" if "OPUSReader_NextPacket w g rd' = (Inr pkt2, rd2)" for pkt2 rd2
  proof -
    have "delivers w g rd' pkt2 rd2"
      using NextPacket_cases [OF that] by simp
    from delivers_facts(6) [OF this] f(5) show ?thesis by simp
  qed
  have bookkeeping:
    "let raw = FramesNumber pkt * SamplesNumberPerFrame pkt;
         need = uint (PreSkip rd') - skipped rd
     in (if 0 < need
         then TotalSamples pkt = raw - min need raw \<and> skipped rd' = skipped rd + min need raw
         else TotalSamples pkt = raw \<and> skipped rd' = skipped rd)
        \<and> (0 < need \<and> need \<le> raw \<longrightarrow> skipped rd' = uint (PreSkip rd'))
        \<and> (raw < need \<longrightarrow>
              TotalSamples pkt = 0 \<and> uint (PreSkip rd') - skipped rd' = need - raw)"
    using f(1,2) raw by (auto simp: Let_def min_def)
  show ?thesis
    using bookkeeping f(4) next_call by blast
qed

lemma reslice_prefix2:
  "reslice pd 0 2 = Inr pre \<Longrightarrow> 2 \<le> len pd \<Longrightarrow> bytes pre = take 2 (bytes pd)"
  by (auto simp: reslice_def len_def split: if_splits)

lemma take2_len: "take 2 (bytes pd) = [a, b] \<Longrightarrow> 2 \<le> len pd"
  by (cases "bytes pd"; cases "tl (bytes pd)") (auto simp: len_def)

lemma reslice2_ok: "2 \<le> len pd \<Longrightarrow> reslice pd 0 2 = Inr \<lparr>bytes = take 2 (bytes pd), spare = drop 2 (bytes pd @ spare pd)\<rparr>"
  by (auto simp: reslice_def len_def cap_def)

lemma NextPacket_never_Op:
  assumes "OPUSReader_NextPacket w g rd = (Inr pkt, rd')"
  shows "take 2 (bytes (PacketData pkt)) \<noteq> [0x4F, 0x70]"
proof
  assume t: "take 2 (bytes (PacketData pkt)) = [0x4F, 0x70]"
  have d: "delivers w g rd pkt rd'"
    using NextPacket_cases [OF assms] by simp
  from delivers_facts(11) [OF d] obtain pre where
    p: "reslice (PacketData pkt) 0 2 = Inr pre" "bytes pre \<noteq> [0x4F, 0x70]" by blast
  from reslice_prefix2 [OF p(1) take2_len [OF t]] t p(2) show False by simp
qed

lemma NextPacket_skip_Op:
  assumes "\<not> LastPacket rd" "ensureHeaders g rd = (None, rd1)"
      and "OGGReader_NextPacket g (OGGReader rd1) = (Inr pd, ogg)"
      and "take 2 (bytes pd) = [0x4F, 0x70]"
  shows "OPUSReader_NextPacket w g rd = OPUSReader_NextPacket w g (latch ogg rd1)"
proof -
  have l: "2 \<le> len pd" using take2_len [OF assms(4)] .
  then obtain cfg where rc: "readPacketConfig (new_OPUSPacket\<lparr>PacketData := pd\<rparr>) = (None, cfg)"
    using readPacketConfig_succeeds [of "new_OPUSPacket\<lparr>PacketData := pd\<rparr>"] by auto
  show ?thesis
    using NextPacket_skip [OF assms(1-3) rc reslice2_ok [OF l]] assms(4) by simp
qed

lemma NextPacket_audio_packet:
  assumes "\<not> LastPacket rd" "ensureHeaders g rd = (None, rd1)"
      and "OGGReader_NextPacket g (OGGReader rd1) = (Inr pd, ogg)"
      and "2 \<le> len pd" "take 2 (bytes pd) \<noteq> [0x4F, 0x70]"
  shows "\<exists>pkt rd'. OPUSReader_NextPacket w g rd = (Inr pkt, rd') \<and> PacketData pkt = pd
           \<and> OGGReader rd' = ogg \<and> LastPacket rd' = lastPacket ogg
           \<and> Duration rd'
               = (if 0 < FramesNumber pkt
                  then int_wrap w (Duration rd + int_wrap w (TotalSamples pkt * 1000000) sdiv 48000)
                  else Duration rd)"
proof -
  obtain cfg where rc: "readPacketConfig (new_OPUSPacket\<lparr>PacketData := pd\<rparr>) = (None, cfg)"
    using readPacketConfig_succeeds [of "new_OPUSPacket\<lparr>PacketData := pd\<rparr>"] assms(4) by auto
  obtain pkt rd' where ap: "applyPreSkip w (latch ogg rd1) cfg = (pkt, rd')"
    by (cases "applyPreSkip w (latch ogg rd1) cfg")
  have np: "OPUSReader_NextPacket w g rd = (Inr pkt, rd')"
    using NextPacket_audio [OF assms(1-3) rc reslice2_ok [OF assms(4)]] assms(5) ap by simp
  note k = applyPreSkip_keeps [OF ap]
  have "PacketData pkt = pd"
    using k(3) readPacketConfig_ok [OF rc] by simp
  moreover have "OGGReader rd' = ogg"
    using k(7) by (simp add: latch_simps)
  moreover have "LastPacket rd' = lastPacket ogg"
    using k(8) assms(1) ensureHeaders_keeps [OF assms(2)] by (simp add: latch_simps)
  moreover note NextPacket_Duration [OF np]
  ultimately show ?thesis using np by simp
qed

text \<open>
  Claim C9. A packet that starts with \<^verbatim>\<open>Op\<close> is never returned. When the Ogg reader
  hands one out, after the headers, the call goes on as a call of \<^verbatim>\<open>NextPacket\<close> on the
  state reached by the pull, whose duration and skip counter are those from before the
  call; unless the pull armed the end-of-stream latch, the packet that follows is
  fetched and, if it is audio of two bytes or more, returned. This holds for every packet
  with these two bytes, also one whose first byte is the TOC byte \<open>0x4F\<close>.
\<close>

theorem C9_skip_Op:
  "(OPUSReader_NextPacket w g rd = (Inr pkt, rd') \<longrightarrow> take 2 (bytes (PacketData pkt)) \<noteq> [0x4F, 0x70])
   \<and> (\<not> LastPacket rd \<and> ensureHeaders g rd = (None, rd1)
        \<and> OGGReader_NextPacket g (OGGReader rd1) = (Inr pd, ogg)
        \<and> take 2 (bytes pd) = [0x4F, 0x70] \<longrightarrow>
          OPUSReader_NextPacket w g rd = OPUSReader_NextPacket w g (latch ogg rd1)
          \<and> Duration (latch ogg rd1) = Duration rd \<and> skipped (latch ogg rd1) = skipped rd
          \<and> (\<not> lastPacket ogg \<and> OGGReader_NextPacket g ogg = (Inr pd2, ogg2)
               \<and> 2 \<le> len pd2 \<and> take 2 (bytes pd2) \<noteq> [0x4F, 0x70] \<longrightarrow>
                (\<exists>pkt2 rd2. OPUSReader_NextPacket w g rd = (Inr pkt2, rd2) \<and> PacketData pkt2 = pd2
                   \<and> Duration rd2
                       = (if 0 < FramesNumber pkt2
                          then int_wrap w (Duration rd
                                           + int_wrap w (TotalSamples pkt2 * 1000000) sdiv 48000)
                          else Duration rd))))"
proof (intro conjI impI)
  assume "OPUSReader_NextPacket w g rd = (Inr pkt, rd')"
  then show "take 2 (bytes (PacketData pkt)) \<noteq> [0x4F, 0x70]"
    by (rule NextPacket_never_Op)
next
  assume a: "\<not> LastPacket rd \<and> ensureHeaders g rd = (None, rd1)
        \<and> OGGReader_NextPacket g (OGGReader rd1) = (Inr pd, ogg)
        \<and> take 2 (bytes pd) = [0x4F, 0x70]"
  then show s: "OPUSReader_NextPacket w g rd = OPUSReader_NextPacket w g (latch ogg rd1)"
    using NextPacket_skip_Op by blast
  from a show "Duration (latch ogg rd1) = Duration rd"
    using ensureHeaders_keeps by (auto simp: latch_simps)
  from a show "skipped (latch ogg rd1) = skipped rd"
    using ensureHeaders_keeps by (auto simp: latch_simps)
  assume b: "\<not> lastPacket ogg \<and> OGGReader_NextPacket g ogg = (Inr pd2, ogg2)
               \<and> 2 \<le> len pd2 \<and> take 2 (bytes pd2) \<noteq> [0x4F, 0x70]"
  have i: "initialized (latch ogg rd1)"
    using a ensureHeaders_initialized by (auto simp: latch_simps)
  have n: "\<not> LastPacket (latch ogg rd1)"
    using a b ensureHeaders_keeps by (auto simp: latch_simps)
  have o: "OGGReader_NextPacket g (OGGReader (latch ogg rd1)) = (Inr pd2, ogg2)"
    using b by (simp add: latch_simps)
  from NextPacket_audio_packet [OF n ensureHeaders_idle [OF i] o] b
  obtain pkt2 rd2 where "OPUSReader_NextPacket w g (latch ogg rd1) = (Inr pkt2, rd2)" "PacketData pkt2 = pd2"
    "Duration rd2
     = (if 0 < FramesNumber pkt2
        then int_wrap w (Duration (latch ogg rd1)
                         + int_wrap w (TotalSamples pkt2 * 1000000) sdiv 48000)
        else Duration (latch ogg rd1))"
    by blast
  then show "\<exists>pkt2 rd2. OPUSReader_NextPacket w g rd = (Inr pkt2, rd2) \<and> PacketData pkt2 = pd2
                   \<and> Duration rd2
                       = (if 0 < FramesNumber pkt2
                          then int_wrap w (Duration rd
                                           + int_wrap w (TotalSamples pkt2 * 1000000) sdiv 48000)
                          else Duration rd)"
    using s a ensureHeaders_keeps by (auto simp: latch_simps)
qed


lemma readPageHeader_keeps:
  "readPageHeader rd = (e, rd1) \<Longrightarrow>
     lastPacket rd1 = lastPacket rd \<and> lastPagePosition rd1 = lastPagePosition rd
     \<and> packetIndex rd1 = packetIndex rd \<and> ogg_initialized rd1 = ogg_initialized rd"
  by (auto simp: readPageHeader_def Let_def split: prod.splits sum.splits if_splits)

lemma readPageContent_keeps:
  "readPageContent rd = (e, rd1) \<Longrightarrow>
     lastPacket rd1 = lastPacket rd \<and> lastPagePosition rd1 = lastPagePosition rd
     \<and> packetIndex rd1 = packetIndex rd \<and> ogg_initialized rd1 = ogg_initialized rd"
  by (auto simp: readPageContent_def Let_def split: prod.splits sum.splits if_splits)

lemma readPage_keeps:
  "readPage rd = (e, rd1) \<Longrightarrow>
     lastPacket rd1 = lastPacket rd \<and> lastPagePosition rd1 = lastPagePosition rd
     \<and> packetIndex rd1 = packetIndex rd \<and> ogg_initialized rd1 = ogg_initialized rd"
  by (auto simp: readPage_def split: prod.splits option.splits
           dest!: readPageHeader_keeps readPageContent_keeps)

lemma firstPage_keeps:
  "firstPage rd = (e, rd1) \<Longrightarrow>
     lastPacket rd1 = lastPacket rd \<and> lastPagePosition rd1 = lastPagePosition rd"
  by (auto simp: firstPage_def Let_def split: prod.splits option.splits if_splits
           dest!: readPage_keeps)

lemma nextPage_keeps:
  "nextPage g rd = (e, rd1) \<Longrightarrow> lastPacket rd1 = lastPacket rd"
  by (auto simp: nextPage_def Let_def split: prod.splits option.splits if_splits sum.splits
           dest!: readPage_keeps)

lemma takePacket_latch:
  "takePacket rd = (Inr pd, rd1) \<Longrightarrow>
     lastPacket rd1 = (lastPacket rd \<or> (packetIndex rd1 = packetsCount (CurrentPage rd1)
                                          \<and> isLast (CurrentPage rd1)))
     \<and> 0 < packetIndex rd1
     \<and> index (packets (CurrentPage rd1)) (packetIndex rd1 - 1) = Inr pd
     \<and> lastPagePosition rd1 = lastPagePosition rd"
proof -
  assume t: "takePacket rd = (Inr pd, rd1)"
  then have i: "index (packets (CurrentPage rd)) (packetIndex rd) = Inr pd"
    and p: "packetIndex rd1 = packetIndex rd + 1" and c: "CurrentPage rd1 = CurrentPage rd"
    and l: "lastPacket rd1 = (lastPacket rd \<or> (packetIndex rd + 1 = packetsCount (CurrentPage rd)
                                                  \<and> isLast (CurrentPage rd)))"
    and g: "lastPagePosition rd1 = lastPagePosition rd"
    by (auto simp: takePacket_def Let_def split: sum.splits if_splits)
  show ?thesis
    using i p c l g by simp
qed

lemma takePacket_fail:
  "takePacket rd = (Inl e, rd1) \<Longrightarrow> rd1 = rd \<and> e = Panic"
  by (auto simp: takePacket_def Let_def index_def split: sum.splits if_splits)

lemma OGGReader_NextPacket_first_fail:
  "firstPage rd = (Some e, rd1) \<Longrightarrow> OGGReader_NextPacket g rd = (Inl e, rd1)"
  by (simp add: OGGReader_NextPacket.simps)

lemma OGGReader_NextPacket_next_fail:
  "firstPage rd = (None, rd1) \<Longrightarrow> packetIndex rd1 = packetsCount (CurrentPage rd1) \<Longrightarrow>
   nextPage g rd1 = (Some e, rd2) \<Longrightarrow> OGGReader_NextPacket g rd = (Inl e, rd2)"
  by (simp add: OGGReader_NextPacket.simps)

lemma OGGReader_NextPacket_next:
  "firstPage rd = (None, rd1) \<Longrightarrow> packetIndex rd1 = packetsCount (CurrentPage rd1) \<Longrightarrow>
   nextPage g rd1 = (None, rd2) \<Longrightarrow> OGGReader_NextPacket g rd = OGGReader_NextPacket g rd2"
  by (simp add: OGGReader_NextPacket.simps [of g rd])

lemma OGGReader_NextPacket_take:
  "firstPage rd = (None, rd1) \<Longrightarrow> packetIndex rd1 \<noteq> packetsCount (CurrentPage rd1) \<Longrightarrow>
   OGGReader_NextPacket g rd = takePacket rd1"
  by (simp add: OGGReader_NextPacket.simps [of g rd])

lemma OGGReader_NextPacket_latch:
  assumes "OGGReader_NextPacket g rd = (r, rd')"
  shows "case r of
           Inl e \<Rightarrow> lastPacket rd' = lastPacket rd
         | Inr pd \<Rightarrow>
             lastPacket rd' = (lastPacket rd \<or> (packetIndex rd' = packetsCount (CurrentPage rd')
                                                  \<and> isLast (CurrentPage rd')))
             \<and> 0 < packetIndex rd'
             \<and> index (packets (CurrentPage rd')) (packetIndex rd' - 1) = Inr pd"
  using assms
proof (induction g rd arbitrary: r rd' rule: OGGReader_NextPacket.induct)
  case (1 g rd)
  obtain e rd1 where fp: "firstPage rd = (e, rd1)"
    by (cases "firstPage rd")
  note k1 = firstPage_keeps [OF fp]
  show ?case
  proof (cases e)
    case (Some err)
    with "1.prems" fp k1 show ?thesis
      by (auto simp: OGGReader_NextPacket_first_fail)
  next
    case None
    show ?thesis
    proof (cases "packetIndex rd1 = packetsCount (CurrentPage rd1)")
      case True
      obtain e2 rd2 where np: "nextPage g rd1 = (e2, rd2)"
        by (cases "nextPage g rd1")
      note k2 = nextPage_keeps [OF np]
      show ?thesis
      proof (cases e2)
        case (Some err)
        with "1.prems" fp None True np k1 k2 show ?thesis
          by (auto simp: OGGReader_NextPacket_next_fail)
      next
        case n2: None
        have "OGGReader_NextPacket g rd2 = (r, rd')"
          using "1.prems" OGGReader_NextPacket_next [OF fp [unfolded None] True np [unfolded n2]]
          by simp
        from "1.IH" [OF fp [symmetric] None True np [symmetric] n2 this] k1 k2
        show ?thesis by (cases r) simp_all
      qed
    next
      case False
      have t: "takePacket rd1 = (r, rd')"
        using "1.prems" OGGReader_NextPacket_take [OF fp [unfolded None] False] by simp
      show ?thesis
      proof (cases r)
        case (Inl err)
        with t takePacket_fail k1 show ?thesis by auto
      next
        case (Inr pd)
        with t takePacket_latch [of rd1 pd rd'] k1 show ?thesis by auto
      qed
    qed
  qed
qed

lemma audio_packetI: "2 \<le> len pd \<Longrightarrow> take 2 (bytes pd) \<noteq> [0x4F, 0x70] \<Longrightarrow> audio_packet pd"
  unfolding audio_packet_def
  using readPacketConfig_succeeds [of "new_OPUSPacket\<lparr>PacketData := pd\<rparr>"] reslice2_ok [of pd]
  by auto

lemma audio_packetD:
  assumes "audio_packet pd"
  obtains cfg pre where "readPacketConfig (new_OPUSPacket\<lparr>PacketData := pd\<rparr>) = (None, cfg)"
    and "reslice pd 0 2 = Inr pre" and "bytes pre \<noteq> [0x4F, 0x70]"
proof -
  obtain c cfg where rc: "readPacketConfig (new_OPUSPacket\<lparr>PacketData := pd\<rparr>) = (c, cfg)"
    by (cases "readPacketConfig (new_OPUSPacket\<lparr>PacketData := pd\<rparr>)")
  with assms have c: "c = None"
    by (simp add: audio_packet_def)
  from assms obtain pre where "reslice pd 0 2 = Inr pre" "bytes pre \<noteq> [0x4F, 0x70]"
    by (cases "reslice pd 0 2") (auto simp: audio_packet_def)
  with rc c that show ?thesis by blast
qed

text \<open>
  Claim C6. A call of the Ogg reader that returns a packet arms the \<^verbatim>\<open>lastPacket\<close>
  latch exactly when that packet is the last complete packet of a page with the
  end-of-stream flag (the latch is never cleared, so it stays armed if it was). The call
  of the Opus reader that pulled the packet, if it is audio, succeeds and returns it,
  with its own flag set to the latch; with the latch armed the call after it fails with
  the end-of-stream error and leaves the reader as it is.
\<close>

theorem C6_end_of_stream:
  assumes "\<not> LastPacket rd" "ensureHeaders g rd = (None, rd1)"
      and "OGGReader_NextPacket g (OGGReader rd1) = (Inr pd, ogg)"
      and "audio_packet pd"
  shows "lastPacket ogg = (lastPacket (OGGReader rd1)
                           \<or> (packetIndex ogg = packetsCount (CurrentPage ogg)
                               \<and> isLast (CurrentPage ogg)))
         \<and> index (packets (CurrentPage ogg)) (packetIndex ogg - 1) = Inr pd
         \<and> (\<exists>pkt rd'. OPUSReader_NextPacket w g rd = (Inr pkt, rd') \<and> PacketData pkt = pd
               \<and> LastPacket rd' = lastPacket ogg
               \<and> (lastPacket ogg \<longrightarrow> OPUSReader_NextPacket w g rd' = (Inl EOS, rd')))"
proof -
  from OGGReader_NextPacket_latch [OF assms(3)]
  have l: "lastPacket ogg = (lastPacket (OGGReader rd1)
                             \<or> (packetIndex ogg = packetsCount (CurrentPage ogg)
                                 \<and> isLast (CurrentPage ogg)))"
    and i: "index (packets (CurrentPage ogg)) (packetIndex ogg - 1) = Inr pd"
    by simp_all
  from assms(4) obtain cfg pre where
    rc: "readPacketConfig (new_OPUSPacket\<lparr>PacketData := pd\<rparr>) = (None, cfg)"
    and pre: "reslice pd 0 2 = Inr pre" "bytes pre \<noteq> [0x4F, 0x70]"
    by (rule audio_packetD)
  obtain pkt rd' where ap: "applyPreSkip w (latch ogg rd1) cfg = (pkt, rd')"
    by (cases "applyPreSkip w (latch ogg rd1) cfg")
  have np: "OPUSReader_NextPacket w g rd = (Inr pkt, rd')"
    using NextPacket_audio [OF assms(1-3) rc pre] ap by simp
  note k = applyPreSkip_keeps [OF ap]
  have pd: "PacketData pkt = pd"
    using k(3) readPacketConfig_ok [OF rc] by simp
  have lp: "LastPacket rd' = lastPacket ogg"
    using k(8) assms(1) ensureHeaders_keeps [OF assms(2)] by (simp add: latch_simps)
  have "lastPacket ogg \<longrightarrow> OPUSReader_NextPacket w g rd' = (Inl EOS, rd')"
    using lp NextPacket_EOS [of rd' w g] by simp
  with l i np pd lp show ?thesis by blast
qed

section \<open>The claims on the example stream\<close>

lemma pair_Inr: "\<not> isl (fst c) \<Longrightarrow> c = (Inr (projr (fst c)), snd c)"
  by (cases c; cases "fst c") auto

lemma pair_None: "fst c = None \<Longrightarrow> c = (None, snd c)"
  by (cases c) auto

theorem C3_pre_skip_witness:
  "OPUSReader_NextPacket 64 grow0 (NewOpusReader ex_stream) = (Inr (projr (fst call1)), snd call1)
   \<and> FramesNumber (projr (fst call1)) * SamplesNumberPerFrame (projr (fst call1)) = 960
   \<and> uint (PreSkip (snd call1)) - skipped (NewOpusReader ex_stream) = 312
   \<and> TotalSamples (projr (fst call1)) = 960 - min 312 960
   \<and> skipped (snd call1) = 0 + min 312 960"
proof -
  have ok: "\<not> isl (fst call1)"
    by code_simp
  have c: "OPUSReader_NextPacket 64 grow0 (NewOpusReader ex_stream) = (Inr (projr (fst call1)), snd call1)"
    using pair_Inr [OF ok] by (simp add: call1_def)
  have v: "FramesNumber (projr (fst call1)) * SamplesNumberPerFrame (projr (fst call1)) = 960
           \<and> uint (PreSkip (snd call1)) - skipped (NewOpusReader ex_stream) = 312
           \<and> skipped (NewOpusReader ex_stream) = 0"
    by code_simp
  show ?thesis
    using C3_pre_skip [OF c] c v by (auto simp: Let_def)
qed

theorem C6_end_of_stream_witness:
  "\<not> LastPacket (snd call1)
   \<and> ensureHeaders grow0 (snd call1) = (None, snd call1)
   \<and> OGGReader_NextPacket grow0 (OGGReader (snd call1)) = (Inr (projr (fst pull2)), snd pull2)
   \<and> audio_packet (projr (fst pull2))
   \<and> \<not> lastPacket (OGGReader (snd call1))
   \<and> packetIndex (snd pull2) = packetsCount (CurrentPage (snd pull2))
   \<and> isLast (CurrentPage (snd pull2))
   \<and> lastPacket (snd pull2)
   \<and> (\<exists>pkt rd'. OPUSReader_NextPacket 64 grow0 (snd call1) = (Inr pkt, rd')
          \<and> PacketData pkt = projr (fst pull2)
          \<and> LastPacket rd' \<and> OPUSReader_NextPacket 64 grow0 rd' = (Inl EOS, rd'))"
proof -
  have a: "\<not> LastPacket (snd call1)"
    by code_simp
  have i: "initialized (snd call1)"
    by code_simp
  have b: "ensureHeaders grow0 (snd call1) = (None, snd call1)"
    using i by (rule ensureHeaders_idle)
  have ok: "\<not> isl (fst pull2)"
    by code_simp
  have c: "OGGReader_NextPacket grow0 (OGGReader (snd call1)) = (Inr (projr (fst pull2)), snd pull2)"
    using pair_Inr [OF ok] by (simp add: pull2_def)
  have d: "audio_packet (projr (fst pull2))"
    by code_simp
  have e: "packetIndex (snd pull2) = packetsCount (CurrentPage (snd pull2))"
    by code_simp
  have f: "isLast (CurrentPage (snd pull2))"
    by code_simp
  have n: "\<not> lastPacket (OGGReader (snd call1))"
    by code_simp
  show ?thesis
    using C6_end_of_stream [OF a b c d] a b c d e f n by blast
qed

theorem C9_skip_Op_witness:
  "\<not> LastPacket (NewOpusReader ex_stream)
   \<and> ensureHeaders grow0 (NewOpusReader ex_stream) = (None, snd headers1)
   \<and> OGGReader_NextPacket grow0 (OGGReader (snd headers1)) = (Inr (projr (fst pull1)), snd pull1)
   \<and> bytes (projr (fst pull1)) = [0x4F, 0x70, 0x01]
   \<and> OPUSReader_NextPacket 64 grow0 (NewOpusReader ex_stream)
       = OPUSReader_NextPacket 64 grow0 (latch (snd pull1) (snd headers1))
   \<and> Duration (latch (snd pull1) (snd headers1)) = Duration (NewOpusReader ex_stream)
   \<and> skipped (latch (snd pull1) (snd headers1)) = skipped (NewOpusReader ex_stream)
   \<and> bytes (PacketData (projr (fst call1))) = [0x78, 1, 2]
   \<and> take 2 (bytes (PacketData (projr (fst call1)))) \<noteq> [0x4F, 0x70]"
proof -
  have a: "\<not> LastPacket (NewOpusReader ex_stream)"
    by code_simp
  have h: "fst headers1 = None"
    by code_simp
  have b: "ensureHeaders grow0 (NewOpusReader ex_stream) = (None, snd headers1)"
    using pair_None [OF h] by (simp add: headers1_def)
  have ok: "\<not> isl (fst pull1)"
    by code_simp
  have c: "OGGReader_NextPacket grow0 (OGGReader (snd headers1)) = (Inr (projr (fst pull1)), snd pull1)"
    using pair_Inr [OF ok] by (simp add: pull1_def)
  have d: "bytes (projr (fst pull1)) = [0x4F, 0x70, 0x01]"
    by code_simp
  then have d': "take 2 (bytes (projr (fst pull1))) = [0x4F, 0x70]"
    by simp
  have ok1: "\<not> isl (fst call1)"
    by code_simp
  have c1: "OPUSReader_NextPacket 64 grow0 (NewOpusReader ex_stream) = (Inr (projr (fst call1)), snd call1)"
    using pair_Inr [OF ok1] by (simp add: call1_def)
  have e: "bytes (PacketData (projr (fst call1))) = [0x78, 1, 2]"
    by code_simp
  note t = C9_skip_Op [of 64 grow0 "NewOpusReader ex_stream" "projr (fst call1)" "snd call1"
                          "snd headers1" "projr (fst pull1)" "snd pull1"]
  show ?thesis
    using t a b c d d' c1 e by blast
qed

section \<open>The last granule position\<close>

lemma nextPage_granule:
  assumes "nextPage g rd = (e, rd')"
      and "packetsCount (CurrentPage rd) < length (packets (CurrentPage rd))"
  shows "lastPagePosition rd'
         = (if AbsoluteGranulePosition (CurrentPage rd) \<noteq> - 1
            then AbsoluteGranulePosition (CurrentPage rd) else lastPagePosition rd)"
  using assms
  by (auto simp: nextPage_def Let_def index_def split: prod.splits option.splits sum.splits if_splits
           dest!: readPage_keeps)

lemma firstPage_idle: "ogg_initialized rd \<Longrightarrow> firstPage rd = (None, rd)"
  by (simp add: firstPage_def)

lemma readPage_EOF:
  "stream rd = [] \<Longrightarrow> fst (readPage rd) = Some EOF"
  by (simp add: readPage_def readPageHeader_def ReadFull_def)

lemma nextPage_EOF:
  assumes "stream rd = []" "packetsCount (CurrentPage rd) < length (packets (CurrentPage rd))"
  shows "fst (nextPage g rd) = Some EOF"
proof -
  define rd1 where "rd1 = (if AbsoluteGranulePosition (CurrentPage rd) \<noteq> - 1
                           then rd\<lparr>lastPagePosition := AbsoluteGranulePosition (CurrentPage rd)\<rparr>
                           else rd)"
  have "stream rd1 = []"
    using assms(1) by (simp add: rd1_def)
  then have "fst (readPage rd1) = Some EOF"
    by (rule readPage_EOF)
  then obtain rd2 where r: "readPage rd1 = (Some EOF, rd2)"
    by (cases "readPage rd1") auto
  have "nextPage g rd = (Some EOF, rd2)"
    using assms(2) r unfolding nextPage_def Let_def rd1_def [symmetric]
    by (simp add: index_def)
  then show ?thesis by simp
qed

text \<open>
  Claim C8 as stated fails. On the example stream the second call returns the last
  packet and sets the end-of-stream flag, the third call fails with the end-of-stream
  error, and the stored position is 960, the granule position of the page before the
  last, whose own is 1920. For the Ogg reader alone, read until the underlying read
  fails: the last page of the second stream has no granule position (\<open>- 1\<close>) and the
  field holds 5.
\<close>

theorem C8_counterexample:
  "\<not> isl (fst call2) \<and> LastPacket (snd call2) \<and> fst call3 = Inl EOS
   \<and> stream (OGGReader (snd call3)) = []
   \<and> AbsoluteGranulePosition (CurrentPage (OGGReader (snd call3))) = 1920
   \<and> lastPagePosition (OGGReader (snd call3)) = 960
   \<and> \<not> isl (fst ogg_b2) \<and> lastPacket (snd ogg_b2) \<and> fst ogg_b3 = Inl EOF
   \<and> AbsoluteGranulePosition (CurrentPage (snd ogg_b2)) = - 1
   \<and> lastPagePosition (snd ogg_b3) = 5"
  by code_simp

text \<open>
  Claim C8, amended. The stored position is updated when the reader moves on from an
  exhausted page, before it reads the next one, to the granule position of the exhausted
  page if that is not \<open>- 1\<close>, and is otherwise left as it is; this also happens when the
  read of the next page then fails, as at the end of the input. A call that returns a
  packet of the current page leaves the field alone, and so does the end-of-stream error
  of the Opus reader, which returns before the Ogg reader is called.
\<close>

theorem C8_last_granule:
  "(nextPage g rd = (e, rd')
      \<and> packetsCount (CurrentPage rd) < length (packets (CurrentPage rd)) \<longrightarrow>
        lastPagePosition rd'
        = (if AbsoluteGranulePosition (CurrentPage rd) \<noteq> - 1
           then AbsoluteGranulePosition (CurrentPage rd) else lastPagePosition rd))
   \<and> (ogg_initialized rd \<and> packetIndex rd = packetsCount (CurrentPage rd)
        \<and> packetsCount (CurrentPage rd) < length (packets (CurrentPage rd))
        \<and> stream rd = [] \<longrightarrow>
          fst (OGGReader_NextPacket g rd) = Inl EOF
          \<and> lastPagePosition (snd (OGGReader_NextPacket g rd))
              = (if AbsoluteGranulePosition (CurrentPage rd) \<noteq> - 1
                 then AbsoluteGranulePosition (CurrentPage rd) else lastPagePosition rd))
   \<and> (ogg_initialized rd \<and> packetIndex rd \<noteq> packetsCount (CurrentPage rd) \<longrightarrow>
          lastPagePosition (snd (OGGReader_NextPacket g rd)) = lastPagePosition rd)
   \<and> (LastPacket opus \<longrightarrow> OPUSReader_NextPacket w g opus = (Inl EOS, opus))"
proof (intro conjI impI)
  assume "nextPage g rd = (e, rd')
      \<and> packetsCount (CurrentPage rd) < length (packets (CurrentPage rd))"
  then show "lastPagePosition rd'
        = (if AbsoluteGranulePosition (CurrentPage rd) \<noteq> - 1
           then AbsoluteGranulePosition (CurrentPage rd) else lastPagePosition rd)"
    using nextPage_granule by blast
next
  assume a: "ogg_initialized rd \<and> packetIndex rd = packetsCount (CurrentPage rd)
        \<and> packetsCount (CurrentPage rd) < length (packets (CurrentPage rd))
        \<and> stream rd = []"
  obtain e2 rd2 where np: "nextPage g rd = (e2, rd2)"
    by (cases "nextPage g rd")
  have e2: "e2 = Some EOF"
    using nextPage_EOF [of rd g] a np by simp
  have c: "OGGReader_NextPacket g rd = (Inl EOF, rd2)"
    using OGGReader_NextPacket_next_fail [OF firstPage_idle _ np [unfolded e2]] a by simp
  show "fst (OGGReader_NextPacket g rd) = Inl EOF"
    using c by simp
  show "lastPagePosition (snd (OGGReader_NextPacket g rd))
              = (if AbsoluteGranulePosition (CurrentPage rd) \<noteq> - 1
                 then AbsoluteGranulePosition (CurrentPage rd) else lastPagePosition rd)"
    using c nextPage_granule [OF np] a by simp
next
  assume a: "ogg_initialized rd \<and> packetIndex rd \<noteq> packetsCount (CurrentPage rd)"
  have c: "OGGReader_NextPacket g rd = takePacket rd"
    using OGGReader_NextPacket_take [OF firstPage_idle] a by simp
  show "lastPagePosition (snd (OGGReader_NextPacket g rd)) = lastPagePosition rd"
    unfolding c by (auto simp: takePacket_def Let_def split: sum.splits)
next
  assume "LastPacket opus"
  then show "OPUSReader_NextPacket w g opus = (Inl EOS, opus)"
    by (rule NextPacket_EOS)
qed

theorem C8_last_granule_witness:
  "lastPagePosition (snd pull2) = 960
   \<and> lastPagePosition (snd (OGGReader_NextPacket grow0 (snd pull1))) = 0
   \<and> OPUSReader_NextPacket 64 grow0 (snd call2) = (Inl EOS, snd call2)
   \<and> fst (OGGReader_NextPacket grow0 (OGGReader (snd call2))) = Inl EOF
   \<and> lastPagePosition (snd (OGGReader_NextPacket grow0 (OGGReader (snd call2)))) = 1920
   \<and> lastPagePosition (snd (OGGReader_NextPacket grow0 (snd ogg_b2))) = 5"
proof -
  have a: "ogg_initialized (OGGReader (snd call2))
           \<and> packetIndex (OGGReader (snd call2)) = packetsCount (CurrentPage (OGGReader (snd call2)))
           \<and> packetsCount (CurrentPage (OGGReader (snd call2)))
               < length (packets (CurrentPage (OGGReader (snd call2))))
           \<and> stream (OGGReader (snd call2)) = []
           \<and> AbsoluteGranulePosition (CurrentPage (OGGReader (snd call2))) = 1920"
    by code_simp
  have b: "ogg_initialized (snd pull1)
           \<and> packetIndex (snd pull1) \<noteq> packetsCount (CurrentPage (snd pull1))
           \<and> lastPagePosition (snd pull1) = 0"
    by code_simp
  have c: "LastPacket (snd call2)"
    by code_simp
  have d: "ogg_initialized (snd ogg_b2)
           \<and> packetIndex (snd ogg_b2) = packetsCount (CurrentPage (snd ogg_b2))
           \<and> packetsCount (CurrentPage (snd ogg_b2)) < length (packets (CurrentPage (snd ogg_b2)))
           \<and> stream (snd ogg_b2) = []
           \<and> AbsoluteGranulePosition (CurrentPage (snd ogg_b2)) = - 1
           \<and> lastPagePosition (snd ogg_b2) = 5"
    by code_simp
  have e: "lastPagePosition (snd pull2) = 960"
    by code_simp
  have 1: "fst (OGGReader_NextPacket grow0 (OGGReader (snd call2))) = Inl EOF
           \<and> lastPagePosition (snd (OGGReader_NextPacket grow0 (OGGReader (snd call2)))) = 1920"
    using a C8_last_granule [of grow0 "OGGReader (snd call2)" None "OGGReader (snd call2)" "snd call2" 64]
    by simp
  have 2: "lastPagePosition (snd (OGGReader_NextPacket grow0 (snd pull1))) = 0"
    using b C8_last_granule [of grow0 "snd pull1" None "snd pull1" "snd call2" 64] by simp
  have 3: "OPUSReader_NextPacket 64 grow0 (snd call2) = (Inl EOS, snd call2)"
    using c C8_last_granule [of grow0 "snd pull1" None "snd pull1" "snd call2" 64] by blast
  have 4: "lastPagePosition (snd (OGGReader_NextPacket grow0 (snd ogg_b2))) = 5"
    using d C8_last_granule [of grow0 "snd ogg_b2" None "snd ogg_b2" "snd call2" 64] by simp
  show ?thesis
    using 1 2 3 4 e by simp
qed

section \<open>Packets and segments\<close>

lemma lace_sizes_sum:
  "lace_sizes ns sz = (szs, tsz) \<Longrightarrow> sum_list szs + tsz = sz + sum_list ns"
  by (induction ns arbitrary: sz szs tsz) (auto split: if_splits prod.splits)

lemma walkSegments_eq:
  "walkSegments tbl sz page =
     page\<lparr>totalSize := totalSize page + sum_list (map unat tbl),
          packetsCount := packetsCount page + length (fst (lace_sizes (map unat tbl) sz)),
          packetSizes := packetSizes page @ fst (lace_sizes (map unat tbl) sz)\<rparr>"
proof (induction tbl arbitrary: sz page)
  case Nil
  show ?case by simp
next
  case (Cons s tbl)
  have lt: "s < 0xFF \<longleftrightarrow> unat s < 255"
    by (simp add: word_less_nat_alt)
  show ?case
    by (cases "s < 0xFF") (simp_all add: Cons.IH Let_def lt [symmetric] split: prod.splits)
qed

lemma lace_append:
  "lace (xs @ ys) acc = (case lace xs acc of (ps, t) \<Rightarrow> case lace ys t of (qs, u) \<Rightarrow> (ps @ qs, u))"
  by (induction xs acc rule: lace.induct) (auto split: prod.splits)

lemma lace_acc:
  "lace xs acc = (case lace xs [] of ([], t) \<Rightarrow> ([], acc @ t) | (p # ps, t) \<Rightarrow> ((acc @ p) # ps, t))"
proof (induction xs arbitrary: acc)
  case Nil
  show ?case by simp
next
  case (Cons x xs)
  obtain n seg where x: "x = (n, seg)" by (cases x)
  show ?case
  proof (cases "n < 255")
    case True
    then show ?thesis using x by (simp split: prod.splits)
  next
    case False
    have "lace (x # xs) acc = lace xs (acc @ seg)"
      using False x by simp
    also have "\<dots> = (case lace xs [] of ([], t) \<Rightarrow> ([], (acc @ seg) @ t)
                       | (p # ps, t) \<Rightarrow> (((acc @ seg) @ p) # ps, t))"
      by (rule Cons.IH)
    finally have l: "lace (x # xs) acc = (case lace xs [] of ([], t) \<Rightarrow> ([], (acc @ seg) @ t)
                       | (p # ps, t) \<Rightarrow> (((acc @ seg) @ p) # ps, t))" .
    have "lace (x # xs) [] = lace xs seg"
      using False x by simp
    also have "\<dots> = (case lace xs [] of ([], t) \<Rightarrow> ([], seg @ t)
                       | (p # ps, t) \<Rightarrow> ((seg @ p) # ps, t))"
      by (rule Cons.IH)
    finally have r: "lace (x # xs) [] = (case lace xs [] of ([], t) \<Rightarrow> ([], seg @ t)
                       | (p # ps, t) \<Rightarrow> ((seg @ p) # ps, t))" .
    show ?thesis
      unfolding l r by (simp split: prod.splits list.splits)
  qed
qed

lemma lace_chop:
  "sum_list ns \<le> length b \<Longrightarrow>
   lace (zip ns (split_body ns b)) acc =
     (case lace_sizes ns (length acc) of
        (szs, tsz) \<Rightarrow> (split_body szs (acc @ b), take tsz (drop (sum_list szs) (acc @ b))))"
proof (induction ns arbitrary: b acc)
  case Nil
  show ?case by simp
next
  case (Cons n ns)
  have n: "n \<le> length b" and r: "sum_list ns \<le> length (drop n b)"
    using Cons.prems by simp_all
  show ?case
  proof (cases "n < 255")
    case True
    show ?thesis
      using True n Cons.IH [OF r, of "[]"] by (simp add: add.commute split: prod.splits)
  next
    case False
    have "length (acc @ take n b) = length acc + n"
      using n by simp
    then show ?thesis
      using False n Cons.IH [OF r, of "acc @ take n b"] by (simp split: prod.splits)
  qed
qed

lemma split_body_lengths:
  "sum_list ns \<le> length b \<Longrightarrow> (n, s) \<in> set (zip ns (split_body ns b)) \<Longrightarrow> length s = n"
proof (induction ns arbitrary: b)
  case Nil
  then show ?case by simp
next
  case (Cons m ns)
  have r: "sum_list ns \<le> length (drop m b)"
    using Cons.prems(1) by simp
  from Cons.prems(2) consider "n = m \<and> s = take m b"
    | "(n, s) \<in> set (zip ns (split_body ns (drop m b)))"
    by auto
  then show ?case
  proof cases
    case 1
    then show ?thesis using Cons.prems(1) by simp
  next
    case 2
    then show ?thesis using Cons.IH [OF r] by simp
  qed
qed

lemma lace_lengths:
  "(\<And>n s. (n, s) \<in> set segs \<Longrightarrow> length s = n) \<Longrightarrow>
   map length (fst (lace segs acc)) = fst (lace_sizes (map fst segs) (length acc))"
  by (induction segs acc rule: lace.induct) (auto split: prod.splits)


lemma length_split_body: "length (split_body ns b) = length ns"
  by (induction ns arbitrary: b) auto

lemma reslice_make_slice:
  "lo \<le> hi \<Longrightarrow> hi \<le> length data \<Longrightarrow>
   \<exists>s. reslice (make_slice data) lo hi = Inr s \<and> bytes s = take (hi - lo) (drop lo data)"
  by (simp add: reslice_def make_slice_def cap_def)

lemma slicePackets_eq:
  assumes "i + length sizes \<le> length pkts" "offset + sum_list sizes \<le> length data"
  shows "\<exists>pkts'. slicePackets (make_slice data) sizes i offset pkts
                    = Inr (pkts', offset + sum_list sizes)
           \<and> length pkts' = length pkts
           \<and> map bytes pkts' = take i (map bytes pkts) @ split_body sizes (drop offset data)
                                 @ drop (i + length sizes) (map bytes pkts)"
  using assms
proof (induction sizes arbitrary: i offset pkts)
  case Nil
  then show ?case by simp
next
  case (Cons sz sizes)
  have i: "i < length pkts"
    using Cons.prems(1) by simp
  obtain s where s: "reslice (make_slice data) offset (offset + sz) = Inr s"
    and bs: "bytes s = take sz (drop offset data)"
    using reslice_make_slice [of offset "offset + sz" data] Cons.prems(2) by auto
  have p1: "Suc i + length sizes \<le> length (pkts[i := s])"
    using Cons.prems(1) by simp
  have p2: "(offset + sz) + sum_list sizes \<le> length data"
    using Cons.prems(2) by simp
  from Cons.IH [OF p1 p2] obtain pkts' where
    r: "slicePackets (make_slice data) sizes (Suc i) (offset + sz) (pkts[i := s])
        = Inr (pkts', offset + sz + sum_list sizes)"
    and l: "length pkts' = length (pkts[i := s])"
    and m: "map bytes pkts' = take (Suc i) (map bytes (pkts[i := s]))
                              @ split_body sizes (drop (offset + sz) data)
                              @ drop (Suc i + length sizes) (map bytes (pkts[i := s]))"
    by blast
  have t: "take (Suc i) (map bytes (pkts[i := s])) = take i (map bytes pkts) @ [bytes s]"
    using i by (simp add: map_update take_Suc_conv_app_nth)
  have d: "drop (Suc i + length sizes) (map bytes (pkts[i := s]))
           = drop (i + length (sz # sizes)) (map bytes pkts)"
    by (simp add: map_update)
  have sp: "split_body (sz # sizes) (drop offset data)
            = bytes s # split_body sizes (drop (offset + sz) data)"
    using bs by (simp add: add.commute)
  have "slicePackets (make_slice data) (sz # sizes) i offset pkts
        = Inr (pkts', offset + sum_list (sz # sizes))"
    using s i r by (simp add: add.assoc)
  moreover have "length pkts' = length pkts"
    using l by simp
  moreover have "map bytes pkts' = take i (map bytes pkts) @ split_body (sz # sizes) (drop offset data)
                                 @ drop (i + length (sz # sizes)) (map bytes pkts)"
    unfolding m t d sp by simp
  ultimately show ?case by blast
qed

lemma ReadFull_prefix:
  "ReadFull (xs @ rest) (length xs) = (Inr xs, rest)"
  by (cases "xs = []") (auto simp: ReadFull_def)

lemma readPageHeader_wf:
  assumes "wf_page p" "stream rd = encode p @ rest"
  shows "\<exists>rd1. readPageHeader (rd\<lparr>CurrentPage := new_OGGPage\<rparr>) = (None, rd1)
           \<and> stream rd1 = page_body p @ rest
           \<and> totalSize (CurrentPage rd1) = sum_list (map unat (lacing p))
           \<and> packetSizes (CurrentPage rd1) = fst (lace_sizes (map unat (lacing p)) 0)
           \<and> packetsCount (CurrentPage rd1) = length (fst (lace_sizes (map unat (lacing p)) 0))
           \<and> HeaderType (CurrentPage rd1) = header_bytes p ! 5"
proof -
  let ?data = "header_bytes p"
  let ?n = "?data ! 26"
  have len: "length ?data = 27" and cp: "take 4 ?data = capturePattern" and v: "?data ! 4 = 0"
    and n: "unat ?n = length (lacing p)" and ne: "lacing p \<noteq> []"
    using assms(1) by (simp_all add: wf_page_def)
  have r1: "ReadFull (stream (rd\<lparr>CurrentPage := new_OGGPage\<rparr>)) 27
            = (Inr ?data, lacing p @ page_body p @ rest)"
    using ReadFull_prefix [of ?data "lacing p @ page_body p @ rest"] assms(2) len
    by (simp add: encode_def)
  have r2: "ReadFull (lacing p @ page_body p @ rest) (unat ?n) = (Inr (lacing p), page_body p @ rest)"
    using ReadFull_prefix [of "lacing p" "page_body p @ rest"] n by simp
  have "?n \<noteq> 0"
    using n ne by (metis length_0_conv unat_0)
  then have "unat (?n - 1) = unat ?n - 1"
    by (simp add: unat_minus_one)
  then have ix: "index (lacing p) (unat (?n - 1)) = Inr (lacing p ! (unat ?n - 1))"
    using n ne by (simp add: index_def)
  show ?thesis
    unfolding readPageHeader_def
    using r1 r2 cp v ix
    by (simp add: Let_def binary_Read_def walkSegments_eq new_OGGPage_def)
qed

lemma readPageContent_wf:
  assumes "stream rd1 = body @ rest" "totalSize (CurrentPage rd1) = length body"
      and "sum_list (packetSizes (CurrentPage rd1)) \<le> length body"
      and "packetsCount (CurrentPage rd1) = length (packetSizes (CurrentPage rd1))"
  shows "\<exists>rd2. readPageContent rd1 = (None, rd2)
           \<and> stream rd2 = rest
           \<and> map bytes (packets (CurrentPage rd2))
               = split_body (packetSizes (CurrentPage rd1)) body
                 @ [drop (sum_list (packetSizes (CurrentPage rd1))) body]
           \<and> packetsCount (CurrentPage rd2) = packetsCount (CurrentPage rd1)
           \<and> HeaderType (CurrentPage rd2) = HeaderType (CurrentPage rd1)"
proof -
  let ?szs = "packetSizes (CurrentPage rd1)"
  let ?c = "packetsCount (CurrentPage rd1)"
  have rf: "ReadFull (stream rd1) (totalSize (CurrentPage rd1)) = (Inr body, rest)"
    using ReadFull_prefix [of body rest] assms(1,2) by simp
  have a1: "0 + length ?szs \<le> length (replicate (?c + 1) nil_slice)"
    using assms(4) by simp
  have a2: "0 + sum_list ?szs \<le> length body"
    using assms(3) by simp
  from slicePackets_eq [OF a1 a2] obtain pkts' where
    sp0: "slicePackets (make_slice body) ?szs 0 0 (replicate (?c + 1) nil_slice)
         = Inr (pkts', 0 + sum_list ?szs)"
    and l0: "length pkts' = length (replicate (?c + 1) nil_slice)"
    and m0: "map bytes pkts' = take 0 (map bytes (replicate (?c + 1) nil_slice))
                               @ split_body ?szs (drop 0 body)
                               @ drop (0 + length ?szs) (map bytes (replicate (?c + 1) nil_slice))"
    by blast
  have dr: "drop (length ?szs) (map bytes (replicate (?c + 1) nil_slice)) = [[]]"
    unfolding assms(4) map_replicate drop_replicate by (simp add: nil_slice_def)
  have sp: "slicePackets (make_slice body) ?szs 0 0 (replicate (?c + 1) nil_slice)
         = Inr (pkts', sum_list ?szs)"
    using sp0 by simp
  have l: "length pkts' = ?c + 1"
    using l0 by simp
  have m: "map bytes pkts' = split_body ?szs body @ [[]]"
    using m0 dr by simp
  obtain s where s: "reslice (make_slice body) (sum_list ?szs) (len (make_slice body)) = Inr s"
    and bs: "bytes s = drop (sum_list ?szs) body"
    using reslice_make_slice [of "sum_list ?szs" "length body" body] assms(3)
    by (auto simp: len_def make_slice_def)
  have "map bytes (pkts'[?c := s]) = split_body ?szs body @ [drop (sum_list ?szs) body]"
    using m bs assms(4)
    by (simp add: map_update list_update_append length_split_body)
  then show ?thesis
    unfolding readPageContent_def
    using rf sp s by (simp add: Let_def)
qed

lemma readPage_wf:
  assumes "wf_page p" "stream rd = encode p @ rest"
  shows "\<exists>rd'. readPage rd = (None, rd')
           \<and> stream rd' = rest
           \<and> map bytes (packets (CurrentPage rd'))
               = fst (lace (segments p) []) @ [snd (lace (segments p) [])]
           \<and> packetsCount (CurrentPage rd') = length (fst (lace (segments p) []))
           \<and> HeaderType (CurrentPage rd') = header_bytes p ! 5"
proof -
  let ?ns = "map unat (lacing p)"
  obtain szs tsz where ls: "lace_sizes ?ns 0 = (szs, tsz)"
    by (cases "lace_sizes ?ns 0")
  have blen: "length (page_body p) = sum_list ?ns"
    using assms(1) by (simp add: wf_page_def)
  have sumeq: "sum_list szs + tsz = sum_list ?ns"
    using lace_sizes_sum [OF ls] by simp
  from readPageHeader_wf [OF assms] obtain rd1 where
    h: "readPageHeader (rd\<lparr>CurrentPage := new_OGGPage\<rparr>) = (None, rd1)"
    and st: "stream rd1 = page_body p @ rest"
    and ts: "totalSize (CurrentPage rd1) = sum_list ?ns"
    and ps: "packetSizes (CurrentPage rd1) = szs"
    and pc: "packetsCount (CurrentPage rd1) = length szs"
    and ht: "HeaderType (CurrentPage rd1) = header_bytes p ! 5"
    using ls by auto
  have c1: "totalSize (CurrentPage rd1) = length (page_body p)"
    using ts blen by simp
  have c2: "sum_list (packetSizes (CurrentPage rd1)) \<le> length (page_body p)"
    using ps sumeq blen by simp
  have c3: "packetsCount (CurrentPage rd1) = length (packetSizes (CurrentPage rd1))"
    using ps pc by simp
  from readPageContent_wf [OF st c1 c2 c3] obtain rd2 where
    c: "readPageContent rd1 = (None, rd2)"
    and st2: "stream rd2 = rest"
    and m: "map bytes (packets (CurrentPage rd2))
            = split_body szs (page_body p) @ [drop (sum_list szs) (page_body p)]"
    and pc2: "packetsCount (CurrentPage rd2) = length szs"
    and ht2: "HeaderType (CurrentPage rd2) = header_bytes p ! 5"
    using ps pc ht by auto
  have "lace (segments p) []
        = (split_body szs (page_body p), take tsz (drop (sum_list szs) (page_body p)))"
    using lace_chop [of ?ns "page_body p" "[]"] blen ls by (simp add: segments_def)
  moreover have "take tsz (drop (sum_list szs) (page_body p)) = drop (sum_list szs) (page_body p)"
    using sumeq blen by simp
  ultimately have lc: "lace (segments p) []
        = (split_body szs (page_body p), drop (sum_list szs) (page_body p))"
    by simp
  show ?thesis
    unfolding readPage_def
    using h c st2 m pc2 ht2 lc by (simp add: length_split_body)
qed

lemma loaded_length: "loaded rd ps t \<Longrightarrow> length (packets (CurrentPage rd)) = Suc (length ps)"
  unfolding loaded_def by (metis length_append_singleton length_map)

lemma drain_eq: "OGGReader_NextPacket g rd = OGGReader_NextPacket g rd' \<Longrightarrow> drain g rd = drain g rd'"
  by (simp add: drain.simps [of g rd] drain.simps [of g rd'])

lemma firstPage_initialized: "firstPage rd = (None, rd1) \<Longrightarrow> ogg_initialized rd1"
  by (auto simp: firstPage_def Let_def split: if_splits prod.splits option.splits)

lemma OGGReader_NextPacket_first:
  assumes "firstPage rd = (None, rd1)"
  shows "OGGReader_NextPacket g rd = OGGReader_NextPacket g rd1"
  using assms firstPage_idle [OF firstPage_initialized [OF assms]]
  by (simp add: OGGReader_NextPacket.simps [of g rd] OGGReader_NextPacket.simps [of g rd1])

lemma drain_take:
  assumes "loaded rd ps t" "packetIndex rd = i" "i \<le> length ps"
      and H: "\<And>rd'. loaded rd' ps t \<Longrightarrow> packetIndex rd' = length ps \<Longrightarrow> stream rd' = stream rd
                  \<Longrightarrow> map bytes (drain g rd') = X"
  shows "map bytes (drain g rd) = drop i ps @ X"
  using assms(1-3) H
proof (induction "length ps - i" arbitrary: rd i)
  case 0
  then have "i = length ps" by simp
  with 0 show ?case by simp
next
  case (Suc k)
  have i: "i < length ps"
    using Suc.hyps(2) by simp
  have ini: "ogg_initialized rd" and m: "map bytes (packets (CurrentPage rd)) = ps @ [t]"
    and c: "packetsCount (CurrentPage rd) = length ps"
    using Suc.prems(1) by (simp_all add: loaded_def)
  have il: "i < length (packets (CurrentPage rd))"
    using loaded_length [OF Suc.prems(1)] i by simp
  define rd2 where "rd2 = snd (takePacket rd)"
  have tp: "takePacket rd = (Inr (packets (CurrentPage rd) ! i), rd2)"
    using il Suc.prems(2) unfolding rd2_def
    by (simp add: takePacket_def index_def Let_def)
  have keep: "CurrentPage rd2 = CurrentPage rd" "stream rd2 = stream rd"
    "packetIndex rd2 = Suc i" "ogg_initialized rd2"
    using il Suc.prems(2) ini unfolding rd2_def
    by (simp_all add: takePacket_def index_def Let_def)
  have l2: "loaded rd2 ps t"
    using Suc.prems(1) keep by (simp add: loaded_def)
  have np: "OGGReader_NextPacket g rd = takePacket rd"
    using OGGReader_NextPacket_take [OF firstPage_idle [OF ini]] Suc.prems(2) c i by simp
  have d: "drain g rd = (packets (CurrentPage rd) ! i) # drain g rd2"
    using np tp by (simp add: drain.simps [of g rd])
  have b: "bytes (packets (CurrentPage rd) ! i) = ps ! i"
    using m il i by (metis nth_append nth_map)
  have k: "k = length ps - Suc i"
    using Suc.hyps(2) by simp
  have "map bytes (drain g rd2) = drop (Suc i) ps @ X"
  proof (rule Suc.hyps(1) [OF k l2 keep(3)])
    show "Suc i \<le> length ps" using i by simp
  next
    fix rd'
    assume "loaded rd' ps t" "packetIndex rd' = length ps" "stream rd' = stream rd2"
    then show "map bytes (drain g rd') = X"
      using Suc.prems(4) keep(2) by simp
  qed
  then show ?case
    using d b i by (simp add: Cons_nth_drop_Suc)
qed

lemma bytes_append_slice: "bytes (append_slice g a b) = bytes a @ bytes b"
  by (simp add: append_slice_def)

lemma lace_acc_list:
  assumes "lace xs [] = (ps, t)"
  shows "\<exists>ps' t'. lace xs acc = (ps', t') \<and> length ps' = length ps
           \<and> ps' @ [t'] = (ps @ [t])[0 := acc @ (ps @ [t]) ! 0]"
  using assms by (subst lace_acc) (auto split: list.splits)

lemma drain_exhausted:
  assumes "\<forall>p\<in>set pages. wf_page p" "loaded rd ps t" "packetIndex rd = length ps"
      and "stream rd = concat (map encode pages)"
  shows "map bytes (drain g rd) = fst (lace (concat (map segments pages)) t)"
  using assms
proof (induction pages arbitrary: rd ps t)
  case Nil
  have ini: "ogg_initialized rd" and c: "packetsCount (CurrentPage rd) = length ps"
    using Nil.prems(2) by (simp_all add: loaded_def)
  have lt: "packetsCount (CurrentPage rd) < length (packets (CurrentPage rd))"
    using loaded_length [OF Nil.prems(2)] c by simp
  have "fst (nextPage g rd) = Some EOF"
    using nextPage_EOF [OF _ lt] Nil.prems(4) by simp
  then obtain rd2 where "nextPage g rd = (Some EOF, rd2)"
    by (cases "nextPage g rd") auto
  then have "OGGReader_NextPacket g rd = (Inl EOF, rd2)"
    using OGGReader_NextPacket_next_fail [OF firstPage_idle [OF ini]] Nil.prems(3) c by simp
  then show ?case
    by (simp add: drain.simps [of g rd])
next
  case (Cons p pages)
  have wf: "wf_page p" and wfs: "\<forall>p\<in>set pages. wf_page p"
    using Cons.prems(1) by simp_all
  have ini: "ogg_initialized rd" and m: "map bytes (packets (CurrentPage rd)) = ps @ [t]"
    and c: "packetsCount (CurrentPage rd) = length ps"
    using Cons.prems(2) by (simp_all add: loaded_def)
  have len: "length (packets (CurrentPage rd)) = Suc (length ps)"
    using loaded_length [OF Cons.prems(2)] .
  define rest where "rest = packets (CurrentPage rd) ! length ps"
  have ix: "index (packets (CurrentPage rd)) (packetsCount (CurrentPage rd)) = Inr rest"
    using len c by (simp add: index_def rest_def)
  have br: "bytes rest = t"
    using m len unfolding rest_def by (metis lessI nth_append_length nth_map)
  define rd1 where "rd1 = (if AbsoluteGranulePosition (CurrentPage rd) \<noteq> - 1
                           then rd\<lparr>lastPagePosition := AbsoluteGranulePosition (CurrentPage rd)\<rparr>
                           else rd)"
  have s1: "stream rd1 = encode p @ concat (map encode pages)"
    using Cons.prems(4) by (simp add: rd1_def)
  have i1: "ogg_initialized rd1"
    using ini by (simp add: rd1_def)
  obtain ps' t' where l0: "lace (segments p) [] = (ps', t')"
    by (cases "lace (segments p) []")
  from readPage_wf [OF wf s1] obtain rd2 where
    rp: "readPage rd1 = (None, rd2)"
    and s2: "stream rd2 = concat (map encode pages)"
    and m2: "map bytes (packets (CurrentPage rd2)) = ps' @ [t']"
    and c2: "packetsCount (CurrentPage rd2) = length ps'"
    using l0 by auto
  have i2: "ogg_initialized rd2"
    using readPage_keeps [OF rp] i1 by simp
  have ne2: "packets (CurrentPage rd2) \<noteq> []"
    using m2 by auto
  from lace_acc_list [OF l0, of t] obtain ps'' t'' where
    l1: "lace (segments p) t = (ps'', t'')" and ll: "length ps'' = length ps'"
    and upd: "ps'' @ [t''] = (ps' @ [t'])[0 := t @ (ps' @ [t']) ! 0]"
    by blast
  obtain rd3 where np: "nextPage g rd = (None, rd3)" and l3: "loaded rd3 ps'' t''"
    and s3: "stream rd3 = concat (map encode pages)" and p3: "packetIndex rd3 = 0"
  proof (cases "len rest > 0")
    case True
    define rd3 where "rd3 = rd2\<lparr>CurrentPage := (CurrentPage rd2)\<lparr>packets :=
                             (packets (CurrentPage rd2))[0 := append_slice g rest
                                                               (packets (CurrentPage rd2) ! 0)]\<rparr>,
                           packetIndex := 0\<rparr>"
    have "nextPage g rd = (None, rd3)"
      unfolding nextPage_def Let_def rd1_def [symmetric] rd3_def
      using ix rp True ne2 by (simp add: index_def)
    moreover have "map bytes (packets (CurrentPage rd3)) = ps'' @ [t'']"
    proof -
      let ?P = "packets (CurrentPage rd2)"
      have "map bytes (?P[0 := append_slice g rest (?P ! 0)])
            = (map bytes ?P)[0 := bytes rest @ bytes (?P ! 0)]"
        by (simp add: map_update bytes_append_slice)
      moreover have "bytes (?P ! 0) = map bytes ?P ! 0"
        using ne2 by simp
      ultimately have "map bytes (?P[0 := append_slice g rest (?P ! 0)])
            = (ps' @ [t'])[0 := t @ (ps' @ [t']) ! 0]"
        using m2 br by simp
      then show ?thesis
        using upd by (simp add: rd3_def)
    qed
    then have "loaded rd3 ps'' t''"
      using i2 c2 ll by (simp add: loaded_def rd3_def)
    moreover have "stream rd3 = concat (map encode pages)" "packetIndex rd3 = 0"
      using s2 by (simp_all add: rd3_def)
    ultimately show ?thesis using that by blast
  next
    case False
    then have t: "t = []"
      using br by (simp add: len_def)
    define rd3 where "rd3 = rd2\<lparr>packetIndex := 0\<rparr>"
    have "nextPage g rd = (None, rd3)"
      unfolding nextPage_def Let_def rd1_def [symmetric] rd3_def
      using ix rp False by simp
    moreover have "ps'' = ps' \<and> t'' = t'"
      using l0 l1 t by simp
    then have "loaded rd3 ps'' t''"
      using i2 c2 m2 by (simp add: loaded_def rd3_def)
    moreover have "stream rd3 = concat (map encode pages)" "packetIndex rd3 = 0"
      using s2 by (simp_all add: rd3_def)
    ultimately show ?thesis using that by blast
  qed
  have "OGGReader_NextPacket g rd = OGGReader_NextPacket g rd3"
    using OGGReader_NextPacket_next [OF firstPage_idle [OF ini] _ np] Cons.prems(3) c by simp
  then have "drain g rd = drain g rd3"
    by (rule drain_eq)
  moreover have "map bytes (drain g rd3) = drop 0 ps'' @ fst (lace (concat (map segments pages)) t'')"
  proof (rule drain_take [OF l3 p3])
    show "0 \<le> length ps''" by simp
  next
    fix rd'
    assume "loaded rd' ps'' t''" "packetIndex rd' = length ps''" "stream rd' = stream rd3"
    then show "map bytes (drain g rd') = fst (lace (concat (map segments pages)) t'')"
      using Cons.IH [OF wfs] s3 by simp
  qed
  ultimately show ?case
    using l1 by (simp add: lace_append split: prod.splits)
qed


lemma segments_lengths:
  assumes "\<forall>p\<in>set pages. wf_page p" "(n, s) \<in> set (concat (map segments pages))"
  shows "length s = n"
proof -
  from assms(2) obtain p where p: "p \<in> set pages" and ns: "(n, s) \<in> set (segments p)"
    by auto
  have "sum_list (map unat (lacing p)) \<le> length (page_body p)"
    using assms(1) p by (simp add: wf_page_def)
  from split_body_lengths [OF this] ns show ?thesis
    by (simp add: segments_def)
qed

lemma segments_fst: "map fst (segments p) = map unat (lacing p)"
  by (simp add: segments_def length_split_body)

lemma segments_fst_concat:
  "map fst (concat (map segments pages)) = concat (map (\<lambda>p. map unat (lacing p)) pages)"
  by (induction pages) (simp_all add: segments_fst)

lemma drain_new:
  assumes "\<forall>p\<in>set pages. wf_page p"
      and "pages \<noteq> [] \<longrightarrow> header_bytes (hd pages) ! 5 AND headerFlagContinuedPacket = 0"
  shows "map bytes (drain g (NewOggReader (concat (map encode pages))))
         = fst (lace (concat (map segments pages)) [])"
proof (cases pages)
  case Nil
  have "fst (readPage (NewOggReader [])) = Some EOF"
    by (rule readPage_EOF) (simp add: NewOggReader_def)
  then obtain rd1 where "readPage (NewOggReader []) = (Some EOF, rd1)"
    by (cases "readPage (NewOggReader [])") auto
  then have "firstPage (NewOggReader []) = (Some EOF, rd1)"
    by (simp add: firstPage_def NewOggReader_def)
  then have "OGGReader_NextPacket g (NewOggReader []) = (Inl EOF, rd1)"
    by (rule OGGReader_NextPacket_first_fail)
  then show ?thesis
    using Nil by (simp add: drain.simps [of g "NewOggReader []"])
next
  case (Cons p rest)
  let ?rd = "NewOggReader (concat (map encode pages))"
  have wf: "wf_page p" and wfs: "\<forall>p\<in>set rest. wf_page p"
    using assms(1) Cons by simp_all
  have flag: "header_bytes p ! 5 AND headerFlagContinuedPacket = 0"
    using assms(2) Cons by simp
  have s0: "stream ?rd = encode p @ concat (map encode rest)"
    using Cons by (simp add: NewOggReader_def)
  obtain ps t where l0: "lace (segments p) [] = (ps, t)"
    by (cases "lace (segments p) []")
  from readPage_wf [OF wf s0] obtain rd1 where
    rp: "readPage ?rd = (None, rd1)"
    and s1: "stream rd1 = concat (map encode rest)"
    and m1: "map bytes (packets (CurrentPage rd1)) = ps @ [t]"
    and c1: "packetsCount (CurrentPage rd1) = length ps"
    and h1: "HeaderType (CurrentPage rd1) = header_bytes p ! 5"
    using l0 by auto
  define rd2 where "rd2 = rd1\<lparr>packetIndex := 0, ogg_initialized := True\<rparr>"
  have fp: "firstPage ?rd = (None, rd2)"
    using rp h1 flag by (simp add: firstPage_def NewOggReader_def Let_def rd2_def)
  have l2: "loaded rd2 ps t"
    using m1 c1 by (simp add: loaded_def rd2_def)
  have "drain g ?rd = drain g rd2"
    using OGGReader_NextPacket_first [OF fp] by (rule drain_eq)
  moreover have "map bytes (drain g rd2) = drop 0 ps @ fst (lace (concat (map segments rest)) t)"
  proof (rule drain_take [OF l2])
    show "packetIndex rd2 = 0" by (simp add: rd2_def)
    show "0 \<le> length ps" by simp
  next
    fix rd'
    assume "loaded rd' ps t" "packetIndex rd' = length ps" "stream rd' = stream rd2"
    then show "map bytes (drain g rd') = fst (lace (concat (map segments rest)) t)"
      using drain_exhausted [OF wfs] s1 by (simp add: rd2_def)
  qed
  ultimately show ?thesis
    using Cons l0 by (simp add: lace_append split: prod.splits)
qed

text \<open>
  Claim C5. On a stream of well-formed pages whose first page does not have the
  continued flag, the packets that \<^verbatim>\<open>NextPacket\<close> of the Ogg reader returns, one after
  the other until it fails, are exactly the packets of the reassembly model applied to
  the segments of all pages in order: each is the concatenation of its segments, a
  fragment at the end of one page being prepended to the first packet of the next. So
  the length of each packet is the sum of the sizes of its segments.
\<close>

theorem C5_packets_are_segments:
  assumes "\<forall>p\<in>set pages. wf_page p"
      and "pages \<noteq> [] \<longrightarrow> header_bytes (hd pages) ! 5 AND headerFlagContinuedPacket = 0"
  shows "map bytes (drain g (NewOggReader (concat (map encode pages))))
         = fst (lace (concat (map segments pages)) [])
       \<and> map len (drain g (NewOggReader (concat (map encode pages))))
         = fst (lace_sizes (concat (map (\<lambda>p. map unat (lacing p)) pages)) 0)"
proof -
  let ?d = "drain g (NewOggReader (concat (map encode pages)))"
  let ?segs = "concat (map segments pages)"
  have b: "map bytes ?d = fst (lace ?segs [])"
    using drain_new [OF assms] .
  have "map len ?d = map length (map bytes ?d)"
    by (simp add: len_def)
  also have "\<dots> = map length (fst (lace ?segs []))"
    using b by simp
  also have "\<dots> = fst (lace_sizes (map fst ?segs) (length ([] :: byte list)))"
    using segments_lengths [OF assms(1)] by (rule lace_lengths)
  finally have "map len ?d = fst (lace_sizes (concat (map (\<lambda>p. map unat (lacing p)) pages)) 0)"
    by (simp add: segments_fst_concat)
  with b show ?thesis by simp
qed

theorem C5_packets_are_segments_witness:
  "wf_page page_a \<and> wf_page page_b
   \<and> header_bytes (hd [page_a, page_b]) ! 5 AND headerFlagContinuedPacket = 0
   \<and> map bytes (drain grow0 (NewOggReader (concat (map encode [page_a, page_b]))))
       = [[1, 2], replicate 255 7 @ [9], [4, 5, 6]]
   \<and> map len (drain grow0 (NewOggReader (concat (map encode [page_a, page_b])))) = [2, 256, 3]"
proof -
  have w: "wf_page page_a \<and> wf_page page_b"
    by code_simp
  have f: "header_bytes (hd [page_a, page_b]) ! 5 AND headerFlagContinuedPacket = 0"
    by code_simp
  have s: "fst (lace (concat (map segments [page_a, page_b])) [])
           = [[1, 2], replicate 255 7 @ [9], [4, 5, 6]]"
    by code_simp
  have z: "fst (lace_sizes (concat (map (\<lambda>p. map unat (lacing p)) [page_a, page_b])) 0)
           = [2, 256, 3]"
    by code_simp
  show ?thesis
    using C5_packets_are_segments [of "[page_a, page_b]" grow0] w f s z by simp
qed

lemma drain_example:
  "map bytes (drain grow0 (NewOggReader (concat (map encode [page_a, page_b]))))
       = [[1, 2], replicate 255 7 @ [9], [4, 5, 6]]"
  by code_simp

section \<open>The range of the duration\<close>

















end
